theory Spec2Isabelle
  imports Main
begin

section \<open>The ordered interval index\<close>

text \<open>
  The class \<open>range_map\<close> keeps one member, \<open>map_\<close>, a
  \<open>std::map<Point, std::pair<Point, Value>>\<close>: the key is the left endpoint of an
  interval, the mapped pair holds its right endpoint and its value. The ordered map is
  modelled as an association list whose keys ascend strictly; an iterator is the key of
  the node it points to, and \<open>None\<close> is \<open>end()\<close>. \<open>Point\<close> is only ever
  compared, so any linear order stands for it.
\<close>

type_synonym ('p, 'v) map_type = "('p \<times> 'p \<times> 'v) list"

type_synonym 'p map_iterator = "'p option"

definition ordered :: "('p::linorder, 'v) map_type \<Rightarrow> bool" where
  "ordered m = sorted_wrt (\<lambda>x y. fst x < fst y) m"

text \<open>\<open>map_.begin()\<close>, which is \<open>end()\<close> on the empty map.\<close>

definition begin_it :: "('p, 'v) map_type \<Rightarrow> 'p map_iterator" where
  "begin_it m = (case m of [] \<Rightarrow> None | x # _ \<Rightarrow> Some (fst x))"

text \<open>\<open>map_.lower_bound(x)\<close>: the first node whose key is not below \<open>x\<close>.\<close>

fun lower_bound :: "('p::linorder, 'v) map_type \<Rightarrow> 'p \<Rightarrow> 'p map_iterator" where
  "lower_bound [] x = None"
| "lower_bound (e # m) x = (if x \<le> fst e then Some (fst e) else lower_bound m x)"

text \<open>The first node whose key is above \<open>x\<close>; \<open>++it\<close> at a node with key \<open>x\<close>.\<close>

fun upper_bound :: "('p::linorder, 'v) map_type \<Rightarrow> 'p \<Rightarrow> 'p map_iterator" where
  "upper_bound [] x = None"
| "upper_bound (e # m) x = (if x < fst e then Some (fst e) else upper_bound m x)"

definition next_it :: "('p::linorder, 'v) map_type \<Rightarrow> 'p map_iterator \<Rightarrow> 'p map_iterator" where
  "next_it m it = (case it of None \<Rightarrow> None | Some k \<Rightarrow> upper_bound m k)"

text \<open>The last node whose key is below \<open>x\<close>.\<close>

fun last_less :: "('p::linorder, 'v) map_type \<Rightarrow> 'p \<Rightarrow> 'p map_iterator" where
  "last_less [] x = None"
| "last_less (e # m) x =
     (if fst e < x then (case last_less m x of None \<Rightarrow> Some (fst e) | Some k \<Rightarrow> Some k)
      else None)"

text \<open>
  \<open>--it\<close>: from \<open>end()\<close> to the last node, from a node to the one before it. The source
  never decrements \<open>begin()\<close>; the model answers \<open>None\<close> there.
\<close>

definition prev_it :: "('p::linorder, 'v) map_type \<Rightarrow> 'p map_iterator \<Rightarrow> 'p map_iterator" where
  "prev_it m it =
     (case it of
        None \<Rightarrow> (if m = [] then None else Some (fst (last m)))
      | Some k \<Rightarrow> last_less m k)"

text \<open>The accessors \<open>left\<close>, \<open>right\<close> and \<open>value\<close> of a dereferenceable iterator.\<close>

definition left :: "'p map_iterator \<Rightarrow> 'p" where
  "left it = the it"

definition right :: "('p, 'v) map_type \<Rightarrow> 'p map_iterator \<Rightarrow> 'p" where
  "right m it = fst (the (map_of m (the it)))"

definition value_of :: "('p, 'v) map_type \<Rightarrow> 'p map_iterator \<Rightarrow> 'v" where
  "value_of m it = snd (the (map_of m (the it)))"

text \<open>The assignment \<open>right(it) = x\<close> through a mutable iterator.\<close>

definition set_right :: "('p, 'v) map_type \<Rightarrow> 'p map_iterator \<Rightarrow> 'p \<Rightarrow> ('p, 'v) map_type" where
  "set_right m it x = map (\<lambda>e. if Some (fst e) = it then (fst e, x, snd (snd e)) else e) m"

text \<open>\<open>map_.erase(it)\<close>.\<close>

definition erase_it :: "('p, 'v) map_type \<Rightarrow> 'p map_iterator \<Rightarrow> ('p, 'v) map_type" where
  "erase_it m it = filter (\<lambda>e. Some (fst e) \<noteq> it) m"

text \<open>
  \<open>map_.emplace(k, e)\<close>: a node is created only when the key is free; an occupied key
  keeps its node and the call reports \<open>false\<close>.
\<close>

fun map_emplace :: "('p::linorder, 'v) map_type \<Rightarrow> 'p \<Rightarrow> 'p \<times> 'v \<Rightarrow> ('p, 'v) map_type" where
  "map_emplace [] k e = [(k, e)]"
| "map_emplace (x # m) k e =
     (if k < fst x then (k, e) # x # m
      else if k = fst x then x # m
      else x # map_emplace m k e)"

definition emplace :: "'p::linorder \<Rightarrow> 'p \<Rightarrow> 'v \<Rightarrow> ('p, 'v) map_type \<Rightarrow> bool \<times> ('p, 'v) map_type" where
  "emplace l r v m = (map_of m l = None, map_emplace m l (r, v))"

section \<open>Locate\<close>

text \<open>
  \<open>locate(p, lb)\<close>: the node \<open>lb\<close> when its key is \<open>p\<close>; otherwise, when \<open>lb\<close> is
  not the first node, the node before it provided \<open>p\<close> is below its right endpoint;
  otherwise \<open>end()\<close>.
\<close>

definition locate :: "('p::linorder, 'v) map_type \<Rightarrow> 'p \<Rightarrow> 'p map_iterator \<Rightarrow> 'p map_iterator" where
  "locate m p lb =
     (if lb \<noteq> None \<and> p = left lb then lb
      else if lb \<noteq> begin_it m \<and> p < right m (prev_it m lb) then prev_it m lb
      else None)"

section \<open>Insertion\<close>

definition insert_rm :: "'p::linorder \<Rightarrow> 'p \<Rightarrow> 'v \<Rightarrow> ('p, 'v) map_type \<Rightarrow> bool \<times> ('p, 'v) map_type" where
  "insert_rm l r v m =
     (if r \<le> l then (False, m)
      else
        let lb = lower_bound m l in
        if locate m l lb = None \<and> (lb = None \<or> r \<le> left lb)
        then emplace l r v m
        else (False, m))"

definition inject :: "'p::linorder \<Rightarrow> 'p \<Rightarrow> 'v \<Rightarrow> ('p, 'v) map_type \<Rightarrow> bool \<times> ('p, 'v) map_type" where
  "inject l r v m =
     (if r \<le> l then (False, m)
      else if m = [] then emplace l r v m
      else
        let i0 = lower_bound m l;
            i = (if i0 = None \<or> (i0 \<noteq> begin_it m \<and> l \<noteq> left i0) then prev_it m i0 else i0);
            n = next_it m i;
            p = (if i \<noteq> begin_it m then prev_it m i else None);
            fits_left = (r \<le> left i \<and> (p = None \<or> right m p \<le> l));
            fits_right = (right m i \<le> l \<and> (n = None \<or> r \<le> left n))
        in
        if fits_left then
          (let right_merge = (r = left i \<and> v = value_of m i);
               left_merge = (p \<noteq> None \<and> l = right m p \<and> v = value_of m p)
           in
           if left_merge \<and> right_merge then (True, erase_it (set_right m p (right m i)) i)
           else if left_merge then (True, set_right m p r)
           else if right_merge then (True, erase_it (snd (emplace l (right m i) v m)) i)
           else (True, snd (emplace l r v m)))
        else if fits_right then
          (let right_merge = (n \<noteq> None \<and> r = left n \<and> v = value_of m n);
               left_merge = (l = right m i \<and> v = value_of m i)
           in
           if left_merge \<and> right_merge then (True, erase_it (set_right m i (right m n)) n)
           else if left_merge then (True, set_right m i r)
           else if right_merge then (True, erase_it (snd (emplace l (right m n) v m)) n)
           else (True, snd (emplace l r v m)))
        else (False, m))"

section \<open>Erasure\<close>

definition erase_point :: "'p::linorder \<Rightarrow> ('p, 'v) map_type \<Rightarrow> bool \<times> ('p, 'v) map_type" where
  "erase_point p m =
     (let i = locate m p (lower_bound m p) in
      if i = None then (False, m) else (True, erase_it m i))"

text \<open>
  The body of \<open>for (;;)\<close> in \<open>erase(l, r)\<close>, with the cursor \<open>next_left\<close> and the map
  as its state. The loop has no bound of its own, so a run that never leaves it is the
  value \<open>None\<close>.
\<close>

partial_function (option) erase_loop ::
  "'p::linorder \<Rightarrow> 'p \<Rightarrow> 'p \<Rightarrow> ('p, 'v) map_type \<Rightarrow> ('p, 'v) map_type option" where
  "erase_loop l r next_left m =
     (let lb = lower_bound m next_left;
          it0 = locate m next_left lb;
          it = (if it0 = None then lb else it0)
      in
      if it = None \<or> r \<le> left it then Some m
      else if l \<le> left it \<and> right m it \<le> r
        then erase_loop l r (right m it) (erase_it m it)
      else if left it \<le> l \<and> r \<le> right m it
        then Some (snd (inject r (right m it) (value_of m it) (set_right m it l)))
      else if l \<le> left it \<and> left it < r
        then Some (erase_it (map_emplace m r (right m it, value_of m it)) it)
      else if l < right m it \<and> right m it \<le> r
        then erase_loop l r (right m it) (set_right m it l)
      else erase_loop l r (right m it) m)"

declare erase_loop.simps [code]

definition erase_range :: "'p::linorder \<Rightarrow> 'p \<Rightarrow> ('p, 'v) map_type \<Rightarrow> ('p, 'v) map_type option" where
  "erase_range l r m = (if r \<le> l then Some m else erase_loop l r l m)"

section \<open>Lookup and query\<close>

definition lookup :: "('p::linorder, 'v) map_type \<Rightarrow> 'p \<Rightarrow> 'v option" where
  "lookup m p =
     (let i = locate m p (lower_bound m p) in
      if i \<noteq> None then Some (value_of m i) else None)"

definition find_rm :: "('p::{linorder,zero}, 'v) map_type \<Rightarrow> 'p \<Rightarrow> 'p \<times> 'p \<times> 'v option" where
  "find_rm m p =
     (let i = locate m p (lower_bound m p) in
      if i = None then (0, 0, None) else (left i, right m i, Some (value_of m i)))"

definition clear :: "('p, 'v) map_type \<Rightarrow> ('p, 'v) map_type" where
  "clear m = []"

section \<open>Invariant and reachable states\<close>

text \<open>
  The invariant of the data model: keys ascend, an interval ends no later than the next
  one starts, and every stored interval has its left endpoint strictly below its right.
\<close>

definition range_inv :: "('p::linorder, 'v) map_type \<Rightarrow> bool" where
  "range_inv m =
     (sorted_wrt (\<lambda>x y. fst x < fst y \<and> fst (snd x) \<le> fst y) m \<and>
      (\<forall>x\<in>set m. fst x < fst (snd x)))"

text \<open>
  The same with the last part relaxed: a stored interval may be empty (left equal to
  right). Every state the operations produce satisfies at least this much.
\<close>

definition loose_inv :: "('p::linorder, 'v) map_type \<Rightarrow> bool" where
  "loose_inv m = (ordered m \<and> (\<forall>x\<in>set m. fst x \<le> fst (snd x)))"

text \<open>The states the public operations produce from the empty map.\<close>

inductive reachable :: "('p::linorder, 'v) map_type \<Rightarrow> bool" where
  reach_empty: "reachable []"
| reach_insert: "reachable m \<Longrightarrow> reachable (snd (insert_rm l r v m))"
| reach_inject: "reachable m \<Longrightarrow> reachable (snd (inject l r v m))"
| reach_erase_point: "reachable m \<Longrightarrow> reachable (snd (erase_point p m))"
| reach_erase_range: "reachable m \<Longrightarrow> erase_range l r m = Some m' \<Longrightarrow> reachable m'"
| reach_clear: "reachable m \<Longrightarrow> reachable (clear m)"

section \<open>Iterator positions in an ordered map\<close>

lemma lower_bound_None: "(lower_bound m x = None) = (\<forall>e\<in>set m. fst e < x)"
  by (induction m) auto

lemma lower_bound_SomeD: "lower_bound m x = Some k \<Longrightarrow> k \<in> fst ` set m \<and> x \<le> k"
  by (induction m) (auto split: if_splits)

lemma lower_bound_least:
  "ordered m \<Longrightarrow> lower_bound m x = Some k \<Longrightarrow> e \<in> set m \<Longrightarrow> x \<le> fst e \<Longrightarrow> k \<le> fst e"
  unfolding ordered_def by (induction m) (auto split: if_splits)

lemma upper_bound_None: "(upper_bound m x = None) = (\<forall>e\<in>set m. fst e \<le> x)"
  by (induction m) auto

lemma upper_bound_SomeD: "upper_bound m x = Some k \<Longrightarrow> k \<in> fst ` set m \<and> x < k"
  by (induction m) (auto split: if_splits)

lemma upper_bound_least:
  "ordered m \<Longrightarrow> upper_bound m x = Some k \<Longrightarrow> e \<in> set m \<Longrightarrow> x < fst e \<Longrightarrow> k \<le> fst e"
  unfolding ordered_def by (induction m) (auto split: if_splits)

lemma last_less_None: "ordered m \<Longrightarrow> (last_less m x = None) = (\<forall>e\<in>set m. x \<le> fst e)"
  unfolding ordered_def by (induction m) (auto split: option.splits)

lemma last_less_SomeD: "last_less m x = Some k \<Longrightarrow> k \<in> fst ` set m \<and> k < x"
  by (induction m arbitrary: k) (auto split: if_splits option.splits)

lemma last_less_greatest:
  "ordered m \<Longrightarrow> last_less m x = Some k \<Longrightarrow> e \<in> set m \<Longrightarrow> fst e < x \<Longrightarrow> fst e \<le> k"
  unfolding ordered_def
proof (induction m arbitrary: k)
  case Nil
  then show ?case by simp
next
  case (Cons a m)
  show ?case
  proof (cases "last_less m x")
    case None
    with Cons.prems have "k = fst a" by (auto split: if_splits)
    moreover have "\<forall>e\<in>set m. x \<le> fst e"
      using None Cons.prems(1) by (simp add: last_less_None[unfolded ordered_def])
    ultimately show ?thesis using Cons.prems by auto
  next
    case (Some k')
    with Cons.prems have k: "k = k'" by (auto split: if_splits)
    have "fst a < k'" using Some Cons.prems(1) last_less_SomeD[OF Some] by auto
    then show ?thesis using Cons.IH[of k'] Some Cons.prems k by auto
  qed
qed

lemma last_less_all:
  "\<forall>e\<in>set m. fst e < x \<Longrightarrow> m \<noteq> [] \<Longrightarrow> last_less m x = Some (fst (last m))"
  by (induction m) (auto split: option.splits)

lemma last_less_eqI:
  assumes "ordered m" "e \<in> set m" "fst e < x" "\<forall>e'\<in>set m. fst e' < x \<longrightarrow> fst e' \<le> fst e"
  shows "last_less m x = Some (fst e)"
proof (cases "last_less m x")
  case None
  then show ?thesis using assms by (auto simp: last_less_None)
next
  case (Some k)
  then obtain e' where e': "e' \<in> set m" "fst e' = k" "k < x"
    using last_less_SomeD[OF Some] by auto
  have "fst e \<le> k" using last_less_greatest[OF assms(1) Some assms(2,3)] .
  moreover have "k \<le> fst e" using assms(4) e' by auto
  ultimately show ?thesis using Some by simp
qed

lemma prev_lower_bound: 
  assumes "ordered m" 
  shows "prev_it m (lower_bound m x) = last_less m x"
proof (cases "lower_bound m x")
  case None
  then have all: "\<forall>e\<in>set m. fst e < x" by (simp add: lower_bound_None)
  show ?thesis
  proof (cases "m = []")
    case True
    then show ?thesis using None by (simp add: prev_it_def)
  next
    case False
    then show ?thesis using None all by (simp add: prev_it_def last_less_all)
  qed
next
  case (Some k0)
  then have k0: "x \<le> k0" using lower_bound_SomeD by fastforce
  have gap: "\<And>e. e \<in> set m \<Longrightarrow> fst e < k0 \<Longrightarrow> fst e < x"
    using lower_bound_least[OF assms Some] by force
  have "last_less m k0 = last_less m x"
  proof (cases "last_less m x")
    case None
    then have "\<forall>e\<in>set m. x \<le> fst e" using assms by (simp add: last_less_None)
    then have "\<forall>e\<in>set m. k0 \<le> fst e" using gap by force
    then have "last_less m k0 = None" using assms by (simp add: last_less_None)
    then show ?thesis using None by simp
  next
    case k: (Some k)
    then obtain e where e: "e \<in> set m" "fst e = k" "k < x"
      using last_less_SomeD[OF k] by auto
    have "last_less m k0 = Some (fst e)"
    proof (rule last_less_eqI[OF assms e(1)])
      show "fst e < k0" using e k0 by simp
      show "\<forall>e'\<in>set m. fst e' < k0 \<longrightarrow> fst e' \<le> fst e"
        using gap last_less_greatest[OF assms k] e by blast
    qed
    then show ?thesis using k e by simp
  qed
  then show ?thesis using Some by (simp add: prev_it_def)
qed

lemma lower_bound_begin: "ordered m \<Longrightarrow> (lower_bound m x = begin_it m) = (\<forall>e\<in>set m. x \<le> fst e)"
  unfolding ordered_def begin_it_def
  by (cases m) (auto simp: lower_bound_None dest!: lower_bound_SomeD)


lemma ordered_distinct: "ordered m \<Longrightarrow> distinct (map fst m)"
  unfolding ordered_def by (induction m) auto

lemma ordered_map_of: "ordered m \<Longrightarrow> (k, e) \<in> set m \<Longrightarrow> map_of m k = Some e"
  by (simp add: ordered_distinct)

lemma right_entry: "ordered m \<Longrightarrow> (k, b, v) \<in> set m \<Longrightarrow> right m (Some k) = b"
  by (simp add: right_def ordered_map_of)

lemma value_entry: "ordered m \<Longrightarrow> (k, b, v) \<in> set m \<Longrightarrow> value_of m (Some k) = v"
  by (simp add: value_of_def ordered_map_of)

lemma key_entry: "k \<in> fst ` set m \<Longrightarrow> (k, right m (Some k), value_of m (Some k)) \<in> set m"
  unfolding right_def value_of_def
  by (induction m) auto

text \<open>
  What \<open>locate(p, lower_bound(p))\<close> returns, in terms of the keys: the node at
  \<open>p\<close>, or else the last node before \<open>p\<close> when \<open>p\<close> is below its right endpoint.
\<close>

lemma locate_lower_bound:
  assumes "ordered m"
  shows "locate m p (lower_bound m p) =
     (if p \<in> fst ` set m then Some p
      else case last_less m p of None \<Rightarrow> None
           | Some k \<Rightarrow> if p < right m (Some k) then Some k else None)"
proof (cases "p \<in> fst ` set m")
  case True
  then obtain e where e: "e \<in> set m" "fst e = p" by auto
  then obtain k where k: "lower_bound m p = Some k"
    using lower_bound_None[of m p] by (cases "lower_bound m p") auto
  have "k \<le> p" using lower_bound_least[OF assms k e(1)] e by simp
  moreover have "p \<le> k" using lower_bound_SomeD[OF k] by simp
  ultimately show ?thesis using k True by (simp add: locate_def left_def)
next
  case False
  have neq: "\<not> (lower_bound m p \<noteq> None \<and> p = left (lower_bound m p))"
    using False lower_bound_SomeD[of m p] by (auto simp: left_def)
  have beg: "(lower_bound m p \<noteq> begin_it m) = (last_less m p \<noteq> None)"
    using assms by (simp add: lower_bound_begin last_less_None)
  show ?thesis using False neq beg
    by (auto simp: locate_def prev_lower_bound[OF assms] split: option.splits)
qed


section \<open>Consequences of the invariant\<close>

lemma range_inv_ordered: "range_inv m \<Longrightarrow> ordered m"
  unfolding range_inv_def ordered_def by (induction m) auto

lemma range_inv_disjoint:
  "range_inv m \<Longrightarrow> x \<in> set m \<Longrightarrow> y \<in> set m \<Longrightarrow> fst x < fst y \<Longrightarrow> fst (snd x) \<le> fst y"
  unfolding range_inv_def by (induction m) force+

lemma range_inv_nonempty: "range_inv m \<Longrightarrow> x \<in> set m \<Longrightarrow> fst x < fst (snd x)"
  by (simp add: range_inv_def)

lemma located_iff:
  assumes "range_inv m"
  shows "(locate m p (lower_bound m p) = Some a) =
         (\<exists>b v. (a, b, v) \<in> set m \<and> a \<le> p \<and> p < b)"
proof
  note ord = range_inv_ordered[OF assms]
  assume L: "locate m p (lower_bound m p) = Some a"
  show "\<exists>b v. (a, b, v) \<in> set m \<and> a \<le> p \<and> p < b"
  proof (cases "p \<in> fst ` set m")
    case True
    then have "a = p" using L by (simp add: locate_lower_bound[OF ord])
    moreover have "(p, right m (Some p), value_of m (Some p)) \<in> set m"
      using key_entry[OF True] .
    ultimately show ?thesis using range_inv_nonempty[OF assms] by fastforce
  next
    case False
    then have k: "last_less m p = Some a" "p < right m (Some a)"
      using L by (auto simp: locate_lower_bound[OF ord] split: option.splits if_splits)
    then have "(a, right m (Some a), value_of m (Some a)) \<in> set m" "a < p"
      using last_less_SomeD[OF k(1)] key_entry[of a m] by auto
    then show ?thesis using k(2) by fastforce
  qed
next
  note ord = range_inv_ordered[OF assms]
  assume "\<exists>b v. (a, b, v) \<in> set m \<and> a \<le> p \<and> p < b"
  then obtain b v where e: "(a, b, v) \<in> set m" "a \<le> p" "p < b" by blast
  show "locate m p (lower_bound m p) = Some a"
  proof (cases "p \<in> fst ` set m")
    case True
    then obtain e' where e': "e' \<in> set m" "fst e' = p" by auto
    have "a = p"
    proof (rule ccontr)
      assume "a \<noteq> p"
      then have "fst (a, b, v) < fst e'" using e e' by simp
      from range_inv_disjoint[OF assms e(1) e'(1) this] show False using e e' by simp
    qed
    then show ?thesis using True by (simp add: locate_lower_bound[OF ord])
  next
    case False
    then have lt: "a < p" using e by (force simp: order_less_le)
    have "last_less m p = Some (fst (a, b, v))"
    proof (rule last_less_eqI[OF ord e(1)])
      show "fst (a, b, v) < p" using lt by simp
      show "\<forall>e'\<in>set m. fst e' < p \<longrightarrow> fst e' \<le> fst (a, b, v)"
      proof (intro ballI impI, rule ccontr)
        fix e' assume e': "e' \<in> set m" "fst e' < p" "\<not> fst e' \<le> fst (a, b, v)"
        then have "fst (a, b, v) < fst e'" by simp
        from range_inv_disjoint[OF assms e(1) e'(1) this] show False using e e' by simp
      qed
    qed
    then show ?thesis using False e right_entry[OF ord e(1)]
      by (simp add: locate_lower_bound[OF ord])
  qed
qed

lemma located_None_iff:
  assumes "range_inv m"
  shows "(locate m p (lower_bound m p) = None) =
         (\<forall>e\<in>set m. \<not> (fst e \<le> p \<and> p < fst (snd e)))"
proof -
  have "(locate m p (lower_bound m p) = None) = (\<forall>a. locate m p (lower_bound m p) \<noteq> Some a)"
    by auto
  also have "\<dots> = (\<forall>a. \<not> (\<exists>b v. (a, b, v) \<in> set m \<and> a \<le> p \<and> p < b))"
    by (simp only: located_iff[OF assms])
  also have "\<dots> = (\<forall>e\<in>set m. \<not> (fst e \<le> p \<and> p < fst (snd e)))"
    by force
  finally show ?thesis .
qed

lemma ordered_key_eq:
  "ordered m \<Longrightarrow> x \<in> set m \<Longrightarrow> y \<in> set m \<Longrightarrow> fst x = fst y \<Longrightarrow> x = y"
proof -
  assume a: "ordered m" "x \<in> set m" "y \<in> set m" "fst x = fst y"
  have "(fst x, snd x) \<in> set m" "(fst x, snd y) \<in> set m"
    using a by (metis prod.collapse)+
  then have "snd x = snd y" using eq_key_imp_eq_value[OF ordered_distinct[OF a(1)]] by blast
  then show "x = y" using a(4) by (simp add: prod_eq_iff)
qed

lemma erase_it_entry:
  assumes "ordered m" "e \<in> set m"
  shows "erase_it m (Some (fst e)) = filter (\<lambda>x. x \<noteq> e) m"
  unfolding erase_it_def
proof (rule filter_cong[OF refl])
  fix x assume "x \<in> set m"
  then show "(Some (fst x) \<noteq> Some (fst e)) = (x \<noteq> e)"
    using ordered_key_eq[OF assms(1) _ assms(2), of x] by auto
qed

section \<open>Point erasure and query\<close>

text \<open>
  On a map that satisfies the invariant, \<open>erase(p)\<close> returns \<open>true\<close> and removes
  exactly the stored entry whose interval contains \<open>p\<close>, every other entry staying as
  it was, when such an entry exists; it returns \<open>false\<close> and leaves the map unchanged
  when no stored interval contains \<open>p\<close>. The invariant is needed: see the runs on a map
  with an empty node below.
\<close>

lemma erase_point_contract:
  assumes "range_inv m"
  shows "(e \<in> set m \<and> fst e \<le> p \<and> p < fst (snd e) \<longrightarrow>
            erase_point p m = (True, filter (\<lambda>x. x \<noteq> e) m)) \<and>
         ((\<forall>x\<in>set m. \<not> (fst x \<le> p \<and> p < fst (snd x))) \<longrightarrow>
            erase_point p m = (False, m))"
proof (intro conjI impI)
  assume e: "e \<in> set m \<and> fst e \<le> p \<and> p < fst (snd e)"
  then have "locate m p (lower_bound m p) = Some (fst e)"
    using located_iff[OF assms, of p "fst e"] by (cases e) auto
  then show "erase_point p m = (True, filter (\<lambda>x. x \<noteq> e) m)"
    using e erase_it_entry[OF range_inv_ordered[OF assms]]
    by (simp add: erase_point_def)
next
  assume "\<forall>x\<in>set m. \<not> (fst x \<le> p \<and> p < fst (snd x))"
  then have "locate m p (lower_bound m p) = None"
    using located_None_iff[OF assms] by blast
  then show "erase_point p m = (False, m)" by (simp add: erase_point_def)
qed

text \<open>
  On a map that satisfies the invariant, \<open>find(p)\<close> returns the bounds and the value of
  the stored interval \<open>[a, b)\<close> that contains \<open>p\<close>; when no stored interval contains
  \<open>p\<close> it returns the fixed triple \<open>(0, 0, absent)\<close>, whatever intervals the map
  holds.
\<close>

lemma find_contract:
  assumes "range_inv m"
  shows "((a, b, v) \<in> set m \<and> a \<le> p \<and> p < b \<longrightarrow> find_rm m p = (a, b, Some v)) \<and>
         ((\<forall>x\<in>set m. \<not> (fst x \<le> p \<and> p < fst (snd x))) \<longrightarrow> find_rm m p = (0, 0, None))"
proof (intro conjI impI)
  note ord = range_inv_ordered[OF assms]
  assume e: "(a, b, v) \<in> set m \<and> a \<le> p \<and> p < b"
  then have "locate m p (lower_bound m p) = Some a"
    using located_iff[OF assms, of p a] by auto
  moreover have "right m (Some a) = b" "value_of m (Some a) = v"
    using e right_entry[OF ord, of a b v] value_entry[OF ord, of a b v] by auto
  ultimately show "find_rm m p = (a, b, Some v)"
    by (simp add: find_rm_def left_def Let_def)
next
  assume "\<forall>x\<in>set m. \<not> (fst x \<le> p \<and> p < fst (snd x))"
  then have "locate m p (lower_bound m p) = None"
    using located_None_iff[OF assms] by blast
  then show "find_rm m p = (0, 0, None)" by (simp add: find_rm_def)
qed

section \<open>Strict insertion\<close>

lemmas eval_defs = erase_range_def locate_def left_def right_def value_of_def begin_it_def
  prev_it_def next_it_def set_right_def erase_it_def inject_def emplace_def insert_rm_def
  erase_point_def lookup_def find_rm_def Let_def

lemma set_map_emplace:
  "ordered m \<Longrightarrow>
   set (map_emplace m k e) = (if k \<in> fst ` set m then set m else insert (k, e) (set m))"
  unfolding ordered_def by (induction m) auto

lemma length_map_emplace:
  "ordered m \<Longrightarrow>
   length (map_emplace m k e) = (if k \<in> fst ` set m then length m else Suc (length m))"
  unfolding ordered_def by (induction m) auto

lemma map_of_None_keys: "(map_of m k = None) = (k \<notin> fst ` set m)"
  by (simp add: map_of_eq_None_iff)

lemma lower_bound_admits:
  assumes "ordered m"
  shows "(lower_bound m l = None \<or> r \<le> left (lower_bound m l)) =
         (\<forall>e\<in>set m. \<not> (l \<le> fst e \<and> fst e < r))"
proof (cases "lower_bound m l")
  case None
  then show ?thesis by (force simp: lower_bound_None)
next
  case (Some k)
  have k: "k \<in> fst ` set m" "l \<le> k" using lower_bound_SomeD[OF Some] by auto
  have least: "\<And>e. e \<in> set m \<Longrightarrow> l \<le> fst e \<Longrightarrow> k \<le> fst e"
    using lower_bound_least[OF assms Some] .
  show ?thesis
  proof
    assume "lower_bound m l = None \<or> r \<le> left (lower_bound m l)"
    then have "r \<le> k" using Some by (simp add: left_def)
    then show "\<forall>e\<in>set m. \<not> (l \<le> fst e \<and> fst e < r)" using least by force
  next
    assume "\<forall>e\<in>set m. \<not> (l \<le> fst e \<and> fst e < r)"
    then have "r \<le> k" using k by force
    then show "lower_bound m l = None \<or> r \<le> left (lower_bound m l)"
      using Some by (simp add: left_def)
  qed
qed

text \<open>
  Claim C4. On a map that satisfies the invariant, \<open>insert(l, r, v)\<close> succeeds exactly
  when \<open>l < r\<close>, no stored interval contains \<open>l\<close>, and no stored entry has its left
  endpoint in \<open>[l, r)\<close>. On success the stored entries are the old ones, unchanged, and
  the one new entry \<open>[l, r) -> v\<close> (no neighbour is merged); on failure the map is
  unchanged.
\<close>

theorem insert_contract:
  assumes "range_inv m"
  shows "fst (insert_rm l r v m) =
           (l < r \<and> (\<forall>e\<in>set m. \<not> (fst e \<le> l \<and> l < fst (snd e))) \<and>
            (\<forall>e\<in>set m. \<not> (l \<le> fst e \<and> fst e < r))) \<and>
         (fst (insert_rm l r v m) \<longrightarrow>
            set (snd (insert_rm l r v m)) = insert (l, r, v) (set m) \<and>
            length (snd (insert_rm l r v m)) = Suc (length m)) \<and>
         (\<not> fst (insert_rm l r v m) \<longrightarrow> snd (insert_rm l r v m) = m)"
proof -
  note ord = range_inv_ordered[OF assms]
  let ?ok = "l < r \<and> (\<forall>e\<in>set m. \<not> (fst e \<le> l \<and> l < fst (snd e))) \<and>
            (\<forall>e\<in>set m. \<not> (l \<le> fst e \<and> fst e < r))"
  have cond: "(locate m l (lower_bound m l) = None \<and>
               (lower_bound m l = None \<or> r \<le> left (lower_bound m l))) =
              ((\<forall>e\<in>set m. \<not> (fst e \<le> l \<and> l < fst (snd e))) \<and>
               (\<forall>e\<in>set m. \<not> (l \<le> fst e \<and> fst e < r)))"
    by (simp only: located_None_iff[OF assms] lower_bound_admits[OF ord])
  show ?thesis
  proof (cases ?ok)
    case True
    then have free: "l \<notin> fst ` set m" by force
    have "\<not> r \<le> l" using True by (simp add: not_le)
    then have "insert_rm l r v m = (True, map_emplace m l (r, v))"
      using True cond free by (simp add: insert_rm_def emplace_def map_of_None_keys Let_def)
    then show ?thesis using True free ord by (simp add: set_map_emplace length_map_emplace)
  next
    case False
    have "insert_rm l r v m = (False, m)"
    proof (cases "r \<le> l")
      case True
      then show ?thesis by (simp add: insert_rm_def)
    next
      case nle: False
      then have "\<not> (locate m l (lower_bound m l) = None \<and>
               (lower_bound m l = None \<or> r \<le> left (lower_bound m l)))"
        using False cond by auto
      then show ?thesis using nle unfolding insert_rm_def Let_def by (simp only: if_False)
    qed
    then show ?thesis using False by simp
  qed
qed

theorem insert_contract_witness:
  "range_inv [(0::int, 10, ''A'')] \<and>
   insert_rm 10 20 ''A'' [(0::int, 10, ''A'')] = (True, [(0, 10, ''A''), (10, 20, ''A'')]) \<and>
   insert_rm 5 15 ''B'' [(0::int, 10, ''A'')] = (False, [(0, 10, ''A'')])"
proof -
  have inv: "range_inv [(0::int, 10, ''A'')]" by (simp add: range_inv_def)
  have a: "insert_rm 10 20 ''A'' [(0::int, 10, ''A'')] = (True, [(0, 10, ''A''), (10, 20, ''A'')])"
    by (simp add: eval_defs)
  have b: "snd (insert_rm 5 15 ''B'' [(0::int, 10, ''A'')]) = [(0, 10, ''A'')]
           \<and> \<not> fst (insert_rm 5 15 ''B'' [(0::int, 10, ''A'')])"
    using insert_contract[OF inv, of 5 15 "''B''"] by simp
  have c: "fst (insert_rm 10 20 ''A'' [(0::int, 10, ''A'')])"
    using insert_contract[OF inv, of 10 20 "''A''"] by simp
  show ?thesis using inv a b c by (simp add: prod_eq_iff)
qed

section \<open>Merging insertion\<close>

text \<open>
  The node \<open>i\<close> that \<open>inject\<close> settles on: the last node whose key is at most
  \<open>l\<close>, or the first node of the map when every key is above \<open>l\<close>.
\<close>
lemma inject_position:
  fixes l :: "'p::linorder" and m :: "('p, 'v) map_type"
  assumes "ordered m" "m \<noteq> []"
  defines "i0 \<equiv> lower_bound m l"
  defines "i \<equiv> (if i0 = None \<or> (i0 \<noteq> begin_it m \<and> l \<noteq> left i0) then prev_it m i0 else i0)"
  shows "\<exists>k. i = Some k \<and> k \<in> fst ` set m \<and>
           ((k \<le> l \<and> (\<forall>e\<in>set m. fst e \<le> l \<longrightarrow> fst e \<le> k)) \<or>
            (l < k \<and> i = begin_it m \<and> (\<forall>e\<in>set m. k \<le> fst e)))"
proof (cases "l \<in> fst ` set m")
  case True
  then have "locate m l i0 = Some l"
    using locate_lower_bound[OF assms(1), of l] by (simp add: i0_def)
  then have "i0 = Some l"
    using True lower_bound_SomeD[of m l] lower_bound_None[of m l] lower_bound_least[OF assms(1), of l]
    unfolding i0_def by (cases "lower_bound m l") force+
  then have "i = Some l" by (simp add: i_def left_def)
  then show ?thesis using True by auto
next
  case False
  show ?thesis
  proof (cases "last_less m l")
    case None
    then have all: "\<forall>e\<in>set m. l \<le> fst e" using assms(1) by (simp add: last_less_None)
    then have beg: "i0 = begin_it m" using assms(1) by (simp add: i0_def lower_bound_begin)
    obtain k where k: "i0 = Some k" using beg assms(2) by (cases m) (auto simp: begin_it_def)
    then have kk: "k \<in> fst ` set m" "l \<le> k" using lower_bound_SomeD[of m l k] by (auto simp: i0_def)
    have "i = Some k" using k beg by (simp add: i_def)
    moreover have "l < k" using kk False by (auto simp: order_less_le)
    moreover have "\<forall>e\<in>set m. k \<le> fst e"
      using all lower_bound_least[OF assms(1), of l k] k by (auto simp: i0_def)
    moreover have "i = begin_it m" using k beg by (simp add: i_def)
    ultimately show ?thesis using kk by blast
  next
    case (Some k)
    then have kk: "k \<in> fst ` set m" "k < l" using last_less_SomeD[OF Some] by auto
    have nb: "i0 \<noteq> begin_it m" using kk assms(1) by (force simp: i0_def lower_bound_begin)
    have "i0 = None \<or> l \<noteq> left i0"
      using False lower_bound_SomeD[of m l] by (cases i0) (auto simp: i0_def left_def)
    then have "i = prev_it m i0" using nb by (auto simp: i_def)
    then have "i = Some k" using Some prev_lower_bound[OF assms(1), of l] by (simp add: i0_def)
    moreover have "\<forall>e\<in>set m. fst e \<le> l \<longrightarrow> fst e \<le> k"
      using last_less_greatest[OF assms(1) Some] False by (force simp: order_less_le)
    ultimately show ?thesis using kk by auto
  qed
qed

text \<open>
  Claim C5. On a map that satisfies the invariant, \<open>inject(l, r, v)\<close> returns
  \<open>false\<close> and leaves the map as it was whenever \<open>r \<le> l\<close>, or \<open>[l, r)\<close> shares a
  point with a stored interval (it reaches past an endpoint of that interval into its
  interior); \<open>inject(5, 15, v)\<close> on the map holding only \<open>[0, 10) -> "A"\<close> is such a
  call.
\<close>

theorem inject_rejects_overlap:
  assumes "range_inv m" "r \<le> l \<or> (\<exists>e\<in>set m. fst e < r \<and> l < fst (snd e))"
  shows "inject l r v m = (False, m)"
proof (cases "r \<le> l")
  case True
  then show ?thesis by (simp add: inject_def)
next
  case False
  note ord = range_inv_ordered[OF assms(1)]
  from False assms(2) obtain e where e: "e \<in> set m" "fst e < r" "l < fst (snd e)" by blast
  then have ne: "m \<noteq> []" by auto
  define i0 where "i0 = lower_bound m l"
  define i where "i = (if i0 = None \<or> (i0 \<noteq> begin_it m \<and> l \<noteq> left i0) then prev_it m i0 else i0)"
  from inject_position[OF ord ne, of l] obtain k where
    k: "i = Some k" "k \<in> fst ` set m"
       "(k \<le> l \<and> (\<forall>e\<in>set m. fst e \<le> l \<longrightarrow> fst e \<le> k)) \<or>
        (l < k \<and> i = begin_it m \<and> (\<forall>e\<in>set m. k \<le> fst e))"
    unfolding i_def i0_def by blast
  have ke: "(k, right m (Some k), value_of m (Some k)) \<in> set m" using key_entry[OF k(2)] .
  have kne: "k < right m (Some k)" using range_inv_nonempty[OF assms(1) ke] by simp
  have ae: "fst e < fst (snd e)" using range_inv_nonempty[OF assms(1) e(1)] .
  have nl: "\<not> r \<le> left i"
  proof
    assume "r \<le> left i"
    then have rk: "r \<le> k" using k(1) by (simp add: left_def)
    from k(3) show False
    proof
      assume "k \<le> l \<and> (\<forall>e\<in>set m. fst e \<le> l \<longrightarrow> fst e \<le> k)"
      then show False using rk False by auto
    next
      assume "l < k \<and> i = begin_it m \<and> (\<forall>e\<in>set m. k \<le> fst e)"
      then show False using rk e by force
    qed
  qed
  have nr: "\<not> (right m i \<le> l \<and> (next_it m i = None \<or> r \<le> left (next_it m i)))"
  proof
    assume fr: "right m i \<le> l \<and> (next_it m i = None \<or> r \<le> left (next_it m i))"
    then have rl: "right m (Some k) \<le> l" using k(1) by simp
    then have kl: "k < l" using kne by simp
    then have gr: "\<forall>e\<in>set m. fst e \<le> l \<longrightarrow> fst e \<le> k" using k(3) by auto
    have "\<not> fst e \<le> l"
    proof
      assume "fst e \<le> l"
      then have "fst e \<le> k" using gr e(1) by blast
      moreover have "fst e \<noteq> k"
      proof
        assume "fst e = k"
        then have "e = (k, right m (Some k), value_of m (Some k))"
          using ordered_key_eq[OF ord e(1) ke] by simp
        then have "fst (snd e) = right m (Some k)" by (metis fst_conv snd_conv)
        then show False using rl e(3) by simp
      qed
      ultimately have "fst e < k" by simp
      then have "fst (snd e) \<le> k" using range_inv_disjoint[OF assms(1) e(1) ke] by simp
      then show False using kl e(3) by simp
    qed
    then have "k < fst e" using kl by simp
    then obtain kn where kn: "upper_bound m k = Some kn"
      using upper_bound_None[of m k] e(1) by (cases "upper_bound m k") force+
    have "kn \<le> fst e" using upper_bound_least[OF ord kn e(1) \<open>k < fst e\<close>] .
    moreover have "r \<le> kn" using fr kn k(1) by (simp add: next_it_def left_def)
    ultimately show False using e(2) by order
  qed
  show ?thesis
    using False ne nl[unfolded i_def i0_def] nr[unfolded i_def i0_def]
    unfolding inject_def Let_def
    by (simp only: if_False simp_thms)
qed

theorem inject_rejects_overlap_witness:
  "range_inv [(0::int, 10, ''A'')] \<and>
   (\<exists>e\<in>set [(0::int, 10::int, ''A'')]. fst e < 15 \<and> 5 < fst (snd e)) \<and>
   inject 5 15 ''B'' [(0::int, 10, ''A'')] = (False, [(0, 10, ''A'')])"
proof -
  have inv: "range_inv [(0::int, 10, ''A'')]" by (simp add: range_inv_def)
  have ov: "15 \<le> (5::int) \<or> (\<exists>e\<in>set [(0::int, 10::int, ''A'')]. fst e < 15 \<and> 5 < fst (snd e))"
    by simp
  show ?thesis using inv inject_rejects_overlap[OF inv ov, of "''B''"] by simp
qed

section \<open>The mutations of the index\<close>

text \<open>The node the scan of \<open>erase(l, r)\<close> picks for a cursor, if any.\<close>

lemma erase_candidate:
  fixes nl :: "'p::linorder" and m :: "('p, 'v) map_type"
  assumes "ordered m"
  defines "lb \<equiv> lower_bound m nl"
  defines "it0 \<equiv> locate m nl lb"
  defines "it \<equiv> (if it0 = None then lb else it0)"
  shows "it = None \<or> (\<exists>k. it = Some k \<and> k \<in> fst ` set m \<and> (nl \<le> k \<or> nl < right m (Some k)))"
proof (cases it0)
  case None
  then have "it = lb" by (simp add: it_def)
  then show ?thesis using lower_bound_SomeD[of m nl] by (cases lb) (auto simp: lb_def)
next
  case (Some k)
  then have it: "it = Some k" by (simp add: it_def)
  have "k \<in> fst ` set m \<and> (nl \<le> k \<or> nl < right m (Some k))"
    using Some last_less_SomeD[of m nl] unfolding it0_def lb_def locate_lower_bound[OF assms(1)]
    by (auto split: if_splits option.splits)
  then show ?thesis using it by blast
qed

lemma ordered_erase_it: "ordered m \<Longrightarrow> ordered (erase_it m it)"
  by (simp add: ordered_def erase_it_def sorted_wrt_filter)

lemma keys_set_right: "map fst (set_right m it x) = map fst m"
  by (induction m) (auto simp: set_right_def)

lemma ordered_keys: "ordered m = sorted_wrt (<) (map fst m)"
  by (simp add: ordered_def sorted_wrt_map)

lemma ordered_set_right: "ordered m \<Longrightarrow> ordered (set_right m it x)"
  by (simp add: ordered_keys keys_set_right)

lemma ordered_map_emplace: "ordered m \<Longrightarrow> ordered (map_emplace m k e)"
proof (induction m)
  case Nil
  then show ?case by (simp add: ordered_def)
next
  case (Cons a m)
  then have om: "ordered m" by (simp add: ordered_def)
  show ?case using Cons set_map_emplace[OF om, of k e]
    by (auto simp: ordered_def)
qed

lemma set_erase_it: "set (erase_it m it) = {e \<in> set m. Some (fst e) \<noteq> it}"
  by (auto simp: erase_it_def)

lemma set_set_right:
  "set (set_right m it x) =
     {e \<in> set m. Some (fst e) \<noteq> it} \<union> {(fst e, x, snd (snd e)) |e. e \<in> set m \<and> Some (fst e) = it}"
  unfolding set_right_def by (induction m) auto

lemma length_erase_it: "k \<in> fst ` set m \<Longrightarrow> length (erase_it m (Some k)) < length m"
  unfolding erase_it_def
  by (auto intro: length_filter_less)

lemma count_erase_it: "length (filter P (erase_it m it)) \<le> length (filter P m)"
  unfolding erase_it_def by (induction m) auto

lemma length_set_right: "length (set_right m it x) = length m"
  by (simp add: set_right_def)

lemma count_set_right_le:
  fixes l :: "'p::linorder"
  shows "length (filter (\<lambda>e. l < fst (snd e)) (set_right m it l)) \<le> length (filter (\<lambda>e. l < fst (snd e)) m)"
  unfolding set_right_def by (induction m) auto

lemma count_set_right_less:
  fixes l :: "'p::linorder"
  shows "e \<in> set m \<Longrightarrow> Some (fst e) = it \<Longrightarrow> l < fst (snd e) \<Longrightarrow>
   length (filter (\<lambda>e. l < fst (snd e)) (set_right m it l)) < length (filter (\<lambda>e. l < fst (snd e)) m)"
proof (induction m)
  case Nil
  then show ?case by simp
next
  case (Cons a m)
  show ?case
  proof (cases "e = a")
    case True
    then show ?thesis using Cons.prems count_set_right_le[of l m it]
      by (simp add: set_right_def less_Suc_eq_le)
  next
    case False
    then have "e \<in> set m" using Cons.prems by simp
    from Cons.IH[OF this Cons.prems(2,3)] show ?thesis
      by (simp add: set_right_def)
  qed
qed

lemma loose_inv_erase_it: "loose_inv m \<Longrightarrow> loose_inv (erase_it m it)"
  by (auto simp: loose_inv_def ordered_erase_it set_erase_it)

lemma loose_inv_set_right:
  "loose_inv m \<Longrightarrow> (\<And>k. it = Some k \<Longrightarrow> k \<le> x) \<Longrightarrow> loose_inv (set_right m it x)"
  by (auto simp: loose_inv_def ordered_set_right set_set_right)

lemma loose_inv_map_emplace:
  "loose_inv m \<Longrightarrow> k \<le> b \<Longrightarrow> loose_inv (map_emplace m k (b, v))"
  by (auto simp: loose_inv_def ordered_map_emplace set_map_emplace split: if_splits)

text \<open>
  Every way \<open>inject\<close> can end: refusal, a plain new node, the left neighbour
  extended, the right neighbour replaced by a node that starts at \<open>l\<close>, or both
  neighbours fused.
\<close>

lemma inject_outcomes:
  fixes l :: "'p::linorder" and m :: "('p, 'v) map_type"
  assumes "ordered m"
  shows "inject l r v m = (False, m) \<or>
         (l < r \<and>
          (inject l r v m = (True, map_emplace m l (r, v)) \<or>
           (\<exists>ka. (ka, l, v) \<in> set m \<and> inject l r v m = (True, set_right m (Some ka) r)) \<or>
           (\<exists>bn. (r, bn, v) \<in> set m \<and>
                 inject l r v m = (True, erase_it (map_emplace m l (bn, v)) (Some r))) \<or>
           (\<exists>ka bn. (ka, l, v) \<in> set m \<and> (r, bn, v) \<in> set m \<and>
                 inject l r v m = (True, erase_it (set_right m (Some ka) bn) (Some r)))))"
proof (cases "r \<le> l")
  case True
  then show ?thesis by (simp add: inject_def)
next
  case False
  then have lr: "l < r" by simp
  show ?thesis
  proof (cases "m = []")
    case True
    then show ?thesis using False by (simp add: inject_def emplace_def)
  next
    case ne: False
    define i0 where "i0 = lower_bound m l"
    define i where "i = (if i0 = None \<or> (i0 \<noteq> begin_it m \<and> l \<noteq> left i0) then prev_it m i0 else i0)"
    define n where "n = next_it m i"
    define p where "p = (if i \<noteq> begin_it m then prev_it m i else None)"
    from inject_position[OF assms ne, of l] obtain k where
      k: "i = Some k" "k \<in> fst ` set m"
      unfolding i_def i0_def by blast
    have ie: "(left i, right m i, value_of m i) \<in> set m"
      using key_entry[OF k(2)] k(1) by (simp add: left_def)
    have ne': "n \<noteq> None \<Longrightarrow> (left n, right m n, value_of m n) \<in> set m"
    proof -
      assume "n \<noteq> None"
      then obtain kn where kn: "n = Some kn" by auto
      then have "kn \<in> fst ` set m" using upper_bound_SomeD[of m k kn] k(1)
        by (simp add: n_def next_it_def)
      then show ?thesis using key_entry kn by (simp add: left_def)
    qed
    have pe: "p \<noteq> None \<Longrightarrow> (left p, right m p, value_of m p) \<in> set m"
    proof -
      assume "p \<noteq> None"
      then obtain kp where kp: "p = Some kp" by auto
      then have "last_less m k = Some kp" using k(1)
        by (simp add: p_def prev_it_def split: if_splits)
      then have "kp \<in> fst ` set m" using last_less_SomeD by fastforce
      then show ?thesis using key_entry kp by (simp add: left_def)
    qed
    have unf: "inject l r v m =
      (if r \<le> left i \<and> (p = None \<or> right m p \<le> l) then
          (if (p \<noteq> None \<and> l = right m p \<and> v = value_of m p) \<and> (r = left i \<and> v = value_of m i)
             then (True, erase_it (set_right m p (right m i)) i)
           else if (p \<noteq> None \<and> l = right m p \<and> v = value_of m p) then (True, set_right m p r)
           else if (r = left i \<and> v = value_of m i)
             then (True, erase_it (map_emplace m l (right m i, v)) i)
           else (True, map_emplace m l (r, v)))
        else if right m i \<le> l \<and> (n = None \<or> r \<le> left n) then
          (if (l = right m i \<and> v = value_of m i) \<and> (n \<noteq> None \<and> r = left n \<and> v = value_of m n)
             then (True, erase_it (set_right m i (right m n)) n)
           else if (l = right m i \<and> v = value_of m i) then (True, set_right m i r)
           else if (n \<noteq> None \<and> r = left n \<and> v = value_of m n)
             then (True, erase_it (map_emplace m l (right m n, v)) n)
           else (True, map_emplace m l (r, v)))
        else (False, m))"
      using False ne unfolding inject_def Let_def p_def n_def i_def i0_def emplace_def snd_conv
      by (simp only: if_False)
    note ik = k(1)
    note sel = if_True if_False simp_thms
    show ?thesis
    proof (cases "r \<le> left i \<and> (p = None \<or> right m p \<le> l)")
      case fl: True
      show ?thesis
      proof (cases "p \<noteq> None \<and> l = right m p \<and> v = value_of m p")
        case lm: True
        then obtain kp where kp: "p = Some kp" by auto
        have pe': "(kp, l, v) \<in> set m" using pe lm kp by (auto simp: left_def)
        show ?thesis
        proof (cases "r = left i \<and> v = value_of m i")
          case rm: True
          then have "(r, right m i, v) \<in> set m" using ie by auto
          moreover have "inject l r v m = (True, erase_it (set_right m p (right m i)) i)"
            unfolding unf by (simp only: eqTrueI[OF fl] eqTrueI[OF lm] eqTrueI[OF rm] sel)
          moreover have "i = Some r" using rm ik by (simp add: left_def)
          ultimately show ?thesis using pe' lr kp by auto
        next
          case rm: False
          have "inject l r v m = (True, set_right m p r)"
            unfolding unf by (simp only: eqTrueI[OF fl] eqTrueI[OF lm] rm sel)
          then show ?thesis using pe' lr kp by auto
        qed
      next
        case lm: False
        show ?thesis
        proof (cases "r = left i \<and> v = value_of m i")
          case rm: True
          then have "(r, right m i, v) \<in> set m" using ie by auto
          moreover have "inject l r v m = (True, erase_it (map_emplace m l (right m i, v)) i)"
            unfolding unf by (simp only: eqTrueI[OF fl] lm eqTrueI[OF rm] sel)
          moreover have "i = Some r" using rm ik by (simp add: left_def)
          ultimately show ?thesis using lr by auto
        next
          case rm: False
          have "inject l r v m = (True, map_emplace m l (r, v))"
            unfolding unf by (simp only: eqTrueI[OF fl] lm rm sel)
          then show ?thesis using lr by blast
        qed
      qed
    next
      case fl: False
      show ?thesis
      proof (cases "right m i \<le> l \<and> (n = None \<or> r \<le> left n)")
        case fr: True
        show ?thesis
        proof (cases "l = right m i \<and> v = value_of m i")
          case lm: True
          then have ie': "(k, l, v) \<in> set m" using ie ik by (auto simp: left_def)
          show ?thesis
          proof (cases "n \<noteq> None \<and> r = left n \<and> v = value_of m n")
            case rm: True
            have "(r, right m n, v) \<in> set m" using ne' rm by auto
            moreover have "inject l r v m = (True, erase_it (set_right m i (right m n)) n)"
              unfolding unf by (simp only: fl eqTrueI[OF fr] eqTrueI[OF lm] eqTrueI[OF rm] sel)
            moreover have "n = Some r" using rm by (auto simp: left_def)
            ultimately show ?thesis using ie' lr ik by auto
          next
            case rm: False
            have "inject l r v m = (True, set_right m i r)"
              unfolding unf by (simp only: fl eqTrueI[OF fr] eqTrueI[OF lm] rm sel)
            then show ?thesis using ie' lr ik by auto
          qed
        next
          case lm: False
          show ?thesis
          proof (cases "n \<noteq> None \<and> r = left n \<and> v = value_of m n")
            case rm: True
            have "(r, right m n, v) \<in> set m" using ne' rm by auto
            moreover have "inject l r v m = (True, erase_it (map_emplace m l (right m n, v)) n)"
              unfolding unf by (simp only: fl eqTrueI[OF fr] lm eqTrueI[OF rm] sel)
            moreover have "n = Some r" using rm by (auto simp: left_def)
            ultimately show ?thesis using lr by auto
          next
            case rm: False
            have "inject l r v m = (True, map_emplace m l (r, v))"
              unfolding unf by (simp only: fl eqTrueI[OF fr] lm rm sel)
            then show ?thesis using lr by blast
          qed
        qed
      next
        case fr: False
        have "inject l r v m = (False, m)"
          unfolding unf by (simp only: fl fr sel)
        then show ?thesis by simp
      qed
    qed
  qed
qed

lemma loose_inv_entry: "loose_inv m \<Longrightarrow> (k, b, v) \<in> set m \<Longrightarrow> k \<le> b"
  by (force simp: loose_inv_def)

lemma loose_inv_inject:
  assumes "loose_inv m"
  shows "loose_inv (snd (inject l r v m))"
proof -
  have ord: "ordered m" using assms by (simp add: loose_inv_def)
  note ent = loose_inv_entry[OF assms]
  from inject_outcomes[OF ord, of l r v] show ?thesis
  proof (elim disjE conjE exE)
    assume "inject l r v m = (False, m)"
    then show ?thesis using assms by simp
  next
    assume "l < r" "inject l r v m = (True, map_emplace m l (r, v))"
    then show ?thesis using loose_inv_map_emplace[OF assms, of l r v] by simp
  next
    fix ka assume "l < r" "(ka, l, v) \<in> set m" "inject l r v m = (True, set_right m (Some ka) r)"
    then show ?thesis using loose_inv_set_right[OF assms, of "Some ka" r] ent[of ka l v] by simp
  next
    fix bn assume "l < r" "(r, bn, v) \<in> set m"
      "inject l r v m = (True, erase_it (map_emplace m l (bn, v)) (Some r))"
    then show ?thesis
      using loose_inv_erase_it[OF loose_inv_map_emplace[OF assms, of l bn v]] ent[of r bn v]
      by simp
  next
    fix ka bn assume "l < r" "(ka, l, v) \<in> set m" "(r, bn, v) \<in> set m"
      "inject l r v m = (True, erase_it (set_right m (Some ka) bn) (Some r))"
    then show ?thesis
      using loose_inv_erase_it[OF loose_inv_set_right[OF assms, of "Some ka" bn]]
        ent[of r bn v] ent[of ka l v]
      by simp
  qed
qed

lemma loose_inv_insert:
  assumes "loose_inv m"
  shows "loose_inv (snd (insert_rm l r v m))"
proof (cases "r \<le> l")
  case True
  then show ?thesis using assms by (simp add: insert_rm_def)
next
  case False
  then show ?thesis using assms loose_inv_map_emplace[OF assms, of l r v]
    by (simp add: insert_rm_def emplace_def Let_def)
qed

lemma loose_inv_erase_point: "loose_inv m \<Longrightarrow> loose_inv (snd (erase_point p m))"
  by (simp add: erase_point_def Let_def loose_inv_erase_it)

section \<open>Range erasure\<close>

text \<open>
  One pass through the loop body: the scan stops, or it handles a stored interval
  \<open>[k, b)\<close> in one of the four ways of the source. The fall-through, where none of the
  four tests holds, does not occur when every stored interval has left at most right
  and the cursor is at or after \<open>l\<close>.
\<close>

lemma erase_loop_step:
  fixes l :: "'p::linorder" and m :: "('p, 'v) map_type"
  assumes "loose_inv m" "l \<le> nl"
  shows "erase_loop l r nl m = Some m \<or>
    (\<exists>k b v. (k, b, v) \<in> set m \<and> k < r \<and>
       ((l \<le> k \<and> b \<le> r \<and>
           erase_loop l r nl m = erase_loop l r b (erase_it m (Some k))) \<or>
        (k \<le> l \<and> r \<le> b \<and>
           erase_loop l r nl m = Some (snd (inject r b v (set_right m (Some k) l)))) \<or>
        (l \<le> k \<and> r < b \<and>
           erase_loop l r nl m = Some (erase_it (map_emplace m r (b, v)) (Some k))) \<or>
        (k < l \<and> l < b \<and> b \<le> r \<and>
           erase_loop l r nl m = erase_loop l r b (set_right m (Some k) l))))"
proof -
  note inv = assms(1)
  have ord: "ordered m" using inv by (simp add: loose_inv_def)
  define lb where "lb = lower_bound m nl"
  define it0 where "it0 = locate m nl lb"
  define it where "it = (if it0 = None then lb else it0)"
  note sel = if_True if_False simp_thms
  have step: "erase_loop l r nl m =
     (if it = None \<or> r \<le> left it then Some m
      else if l \<le> left it \<and> right m it \<le> r
        then erase_loop l r (right m it) (erase_it m it)
      else if left it \<le> l \<and> r \<le> right m it
        then Some (snd (inject r (right m it) (value_of m it) (set_right m it l)))
      else if l \<le> left it \<and> left it < r
        then Some (erase_it (map_emplace m r (right m it, value_of m it)) it)
      else if l < right m it \<and> right m it \<le> r
        then erase_loop l r (right m it) (set_right m it l)
      else erase_loop l r (right m it) m)"
    by (subst erase_loop.simps) (simp only: Let_def it_def it0_def lb_def)
  show ?thesis
  proof (cases "it = None \<or> r \<le> left it")
    case True
    have "erase_loop l r nl m = Some m" unfolding step by (simp only: eqTrueI[OF True] sel)
    then show ?thesis by simp
  next
    case stop: False
    from erase_candidate[OF ord, of nl] stop obtain k where
      k: "it = Some k" "k \<in> fst ` set m" "nl \<le> k \<or> nl < right m (Some k)"
      unfolding it_def it0_def lb_def by blast
    define b where "b = right m it"
    define v where "v = value_of m it"
    have ke: "(k, b, v) \<in> set m" using key_entry[OF k(2)] k(1) by (simp add: b_def v_def)
    have kb: "k \<le> b" using loose_inv_entry[OF inv ke] .
    have lk: "left it = k" using k(1) by (simp add: left_def)
    have kr: "k < r" using stop lk by auto
    show ?thesis
    proof (cases "l \<le> left it \<and> right m it \<le> r")
      case c1: True
      have "erase_loop l r nl m = erase_loop l r b (erase_it m (Some k))"
        unfolding step b_def k(1)[symmetric] by (simp only: stop eqTrueI[OF c1] sel)
      then show ?thesis using ke kr c1 lk by (auto simp: b_def)
    next
      case c1: False
      show ?thesis
      proof (cases "left it \<le> l \<and> r \<le> right m it")
        case c2: True
        have "erase_loop l r nl m = Some (snd (inject r b v (set_right m (Some k) l)))"
          unfolding step b_def v_def k(1)[symmetric] by (simp only: stop c1 eqTrueI[OF c2] sel)
        then show ?thesis using ke kr c2 lk by (auto simp: b_def)
      next
        case c2: False
        show ?thesis
        proof (cases "l \<le> left it \<and> left it < r")
          case c3: True
          have "erase_loop l r nl m = Some (erase_it (map_emplace m r (b, v)) (Some k))"
            unfolding step b_def v_def k(1)[symmetric] by (simp only: stop c1 c2 eqTrueI[OF c3] sel)
          moreover have "r < b" using c1 c3 by (auto simp: b_def)
          ultimately show ?thesis using ke kr c3 lk by auto
        next
          case c3: False
          then have kl: "k < l" using kr lk by auto
          show ?thesis
          proof (cases "l < right m it \<and> right m it \<le> r")
            case c4: True
            have "erase_loop l r nl m = erase_loop l r b (set_right m (Some k) l)"
              unfolding step b_def k(1)[symmetric] by (simp only: stop c1 c2 c3 eqTrueI[OF c4] sel)
            then show ?thesis using ke kr kl c4 by (auto simp: b_def)
          next
            case c4: False
            have "b < r" using c2 kl lk by (auto simp: b_def)
            then have "b \<le> l" using c4 by (auto simp: b_def)
            then have False using k(3) kl assms(2) k(1) by (auto simp: b_def)
            then show ?thesis ..
          qed
        qed
      qed
    qed
  qed
qed

text \<open>
  The loop returns: each further pass has either one node fewer or one node fewer whose
  right endpoint lies above \<open>l\<close>.
\<close>

lemma erase_loop_total:
  fixes l :: "'p::linorder" and m :: "('p, 'v) map_type"
  assumes "loose_inv m" "l \<le> nl"
  shows "\<exists>m'. erase_loop l r nl m = Some m' \<and> loose_inv m'"
  using assms
proof (induction "length m + length (filter (\<lambda>e. l < fst (snd e)) m)" arbitrary: m nl rule: less_induct)
  case less
  note inv = less.prems(1)
  from erase_loop_step[OF less.prems, of r] show ?case
  proof (elim disjE exE conjE)
    assume "erase_loop l r nl m = Some m"
    then show ?thesis using inv by simp
  next
    fix k b v
    assume e: "(k, b, v) \<in> set m" and c: "l \<le> k" "b \<le> r"
      and eq: "erase_loop l r nl m = erase_loop l r b (erase_it m (Some k))"
    have "k \<in> fst ` set m" using e by force
    then have "length (erase_it m (Some k)) +
               length (filter (\<lambda>e. l < fst (snd e)) (erase_it m (Some k)))
            < length m + length (filter (\<lambda>e. l < fst (snd e)) m)"
      using length_erase_it[of k m] count_erase_it[of "\<lambda>e. l < fst (snd e)" m "Some k"]
      by simp
    moreover have "l \<le> b" using loose_inv_entry[OF inv e] c by simp
    ultimately show ?thesis using less.hyps[OF _ loose_inv_erase_it[OF inv]] eq by simp
  next
    fix k b v
    assume e: "(k, b, v) \<in> set m" and c: "k \<le> l"
      and eq: "erase_loop l r nl m = Some (snd (inject r b v (set_right m (Some k) l)))"
    have "loose_inv (set_right m (Some k) l)"
      using loose_inv_set_right[OF inv, of "Some k" l] c by simp
    from loose_inv_inject[OF this] show ?thesis using eq by simp
  next
    fix k b v
    assume e: "(k, b, v) \<in> set m" and c: "r < b"
      and eq: "erase_loop l r nl m = Some (erase_it (map_emplace m r (b, v)) (Some k))"
    have "r \<le> b" using c by simp
    from loose_inv_erase_it[OF loose_inv_map_emplace[OF inv this]] show ?thesis using eq by simp
  next
    fix k b v
    assume e: "(k, b, v) \<in> set m" and c: "k < l" "l < b"
      and eq: "erase_loop l r nl m = erase_loop l r b (set_right m (Some k) l)"
    have "length (filter (\<lambda>e. l < fst (snd e)) (set_right m (Some k) l))
          < length (filter (\<lambda>e. l < fst (snd e)) m)"
      using count_set_right_less[OF e, of "Some k" l] c by simp
    then have dec: "length (set_right m (Some k) l) +
                    length (filter (\<lambda>e. l < fst (snd e)) (set_right m (Some k) l))
                  < length m + length (filter (\<lambda>e. l < fst (snd e)) m)"
      by (simp add: length_set_right)
    have "loose_inv (set_right m (Some k) l)"
      using loose_inv_set_right[OF inv, of "Some k" l] c by simp
    moreover have "l \<le> b" using c by simp
    ultimately show ?thesis using less.hyps[OF dec] eq by simp
  qed
qed

lemma erase_range_total:
  "loose_inv m \<Longrightarrow> \<exists>m'. erase_range l r m = Some m' \<and> loose_inv m'"
  using erase_loop_total[of m l l r] by (simp add: erase_range_def)

lemma reachable_loose_inv: "reachable m \<Longrightarrow> loose_inv m"
proof (induction rule: reachable.induct)
  case reach_empty
  then show ?case by (simp add: loose_inv_def ordered_def)
next
  case (reach_erase_range m l r m')
  then show ?case using erase_range_total[of m l r] by auto
next
  case (reach_clear m)
  then show ?case by (simp add: clear_def loose_inv_def ordered_def)
qed (simp_all add: loose_inv_insert loose_inv_inject loose_inv_erase_point)

section \<open>What range erasure leaves alone\<close>

lemma range_inv_loose: "range_inv m \<Longrightarrow> loose_inv m"
  by (auto simp: loose_inv_def range_inv_ordered dest: range_inv_nonempty intro: less_imp_le)

lemma range_inv_erase_it: "range_inv m \<Longrightarrow> range_inv (erase_it m it)"
  by (auto simp: range_inv_def erase_it_def sorted_wrt_filter)

lemma range_inv_set_right:
  assumes "range_inv m" "(k, b, v) \<in> set m" "k < x" "x \<le> b"
  shows "range_inv (set_right m (Some k) x)"
proof -
  note ord = range_inv_ordered[OF assms(1)]
  let ?f = "\<lambda>e. if Some (fst e) = Some k then (fst e, x, snd (snd e)) else e"
  let ?R = "\<lambda>x y. fst x < fst y \<and> fst (snd x) \<le> fst y"
  have shrink: "\<And>e. e \<in> set m \<Longrightarrow> fst (?f e) = fst e \<and> fst (snd (?f e)) \<le> fst (snd e)"
  proof -
    fix e assume e: "e \<in> set m"
    show "fst (?f e) = fst e \<and> fst (snd (?f e)) \<le> fst (snd e)"
    proof (cases "fst e = k")
      case True
      then have "e = (k, b, v)" using ordered_key_eq[OF ord e assms(2)] by simp
      then show ?thesis using assms(4) by simp
    next
      case False
      then show ?thesis by simp
    qed
  qed
  have "sorted_wrt ?R m" using assms(1) by (simp add: range_inv_def)
  then have "sorted_wrt (\<lambda>x y. ?R (?f x) (?f y)) m"
  proof (rule sorted_wrt_mono_rel[rotated])
    fix e e' assume "e \<in> set m" "e' \<in> set m" "?R e e'"
    then show "?R (?f e) (?f e')" using shrink[of e] shrink[of e'] by (auto simp del: fst_conv snd_conv split: if_splits) 
  qed
  then have "sorted_wrt ?R (set_right m (Some k) x)"
    by (simp only: set_right_def sorted_wrt_map)
  moreover have "\<forall>e\<in>set (set_right m (Some k) x). fst e < fst (snd e)"
    using assms(1,3) by (auto simp: set_set_right range_inv_def)
  ultimately show ?thesis by (simp add: range_inv_def)
qed

lemma in_erase_it: "e \<in> set m \<Longrightarrow> fst e \<noteq> k \<Longrightarrow> e \<in> set (erase_it m (Some k))"
  by (simp add: set_erase_it)

lemma in_set_right: "e \<in> set m \<Longrightarrow> fst e \<noteq> k \<Longrightarrow> e \<in> set (set_right m (Some k) x)"
  by (simp add: set_set_right)

lemma set_right_origin:
  "e \<in> set (set_right m (Some k) x) \<Longrightarrow> e \<in> set m \<or> (fst e = k \<and> fst (snd e) = x)"
  by (auto simp: set_set_right)

lemma in_map_emplace: "ordered m \<Longrightarrow> e \<in> set m \<Longrightarrow> e \<in> set (map_emplace m k x)"
  by (simp add: set_map_emplace)

text \<open>
  The branch that splits a stored interval \<open>[k, bk)\<close> around \<open>[l, r)\<close>: the right
  remainder goes back through \<open>inject\<close>, which fuses it with the node starting at
  \<open>bk\<close> when that node carries the same value.
\<close>

lemma split_frame:
  fixes l :: "'p::linorder" and m :: "('p, 'v) map_type"
  assumes inv: "range_inv m" and ke: "(k, bk, vk) \<in> set m" and kl: "k \<le> l" and lr: "l < r"
    and e: "(a, b, v) \<in> set m" and ra: "r \<le> a"
  defines "m1 \<equiv> set_right m (Some k) l"
  defines "m' \<equiv> snd (inject r bk vk m1)"
  shows "(a, b, v) \<in> set m' \<or> ((k, a, v) \<in> set m \<and> r < a \<and> (r, b, v) \<in> set m')"
proof -
  note ord = range_inv_ordered[OF inv]
  have ord1: "ordered m1" using ord by (simp add: m1_def ordered_set_right)
  have ak: "a \<noteq> k" using kl lr ra by auto
  have e1: "(a, b, v) \<in> set m1" using in_set_right[OF e, of k l] ak by (simp add: m1_def)
  have ab: "a < b" using range_inv_nonempty[OF inv e] by simp
  from inject_outcomes[OF ord1, of r bk vk] show ?thesis
  proof (elim disjE conjE exE)
    assume "inject r bk vk m1 = (False, m1)"
    then show ?thesis using e1 by (simp add: m'_def)
  next
    assume "inject r bk vk m1 = (True, map_emplace m1 r (bk, vk))"
    then show ?thesis using in_map_emplace[OF ord1 e1] by (simp add: m'_def)
  next
    fix ka assume ka: "(ka, r, vk) \<in> set m1"
      and eq: "inject r bk vk m1 = (True, set_right m1 (Some ka) bk)"
    have "a \<noteq> ka"
    proof
      assume "a = ka"
      then have "(a, b, v) = (ka, r, vk)" using ordered_key_eq[OF ord1 e1 ka] by simp
      then show False using ab ra by simp
    qed
    then show ?thesis using eq in_set_right[OF e1, of ka bk] by (simp add: m'_def)
  next
    fix bn assume rb: "r < bk" and n: "(bk, bn, vk) \<in> set m1"
      and eq: "inject r bk vk m1 = (True, erase_it (map_emplace m1 r (bn, vk)) (Some bk))"
    show ?thesis
    proof (cases "a = bk")
      case False
      then show ?thesis using eq in_erase_it[OF in_map_emplace[OF ord1 e1], of bk r "(bn, vk)"]
        by (simp add: m'_def)
    next
      case True
      then have same: "(a, b, v) = (bk, bn, vk)" using ordered_key_eq[OF ord1 e1 n] by simp
      have "r \<notin> fst ` set m"
      proof
        assume "r \<in> fst ` set m"
        then obtain e' where e': "e' \<in> set m" "fst e' = r" by auto
        then have "fst (k, bk, vk) < fst e'" using kl lr by simp
        from range_inv_disjoint[OF inv ke e'(1) this] show False using e'(2) rb by simp
      qed
      then have "r \<notin> fst ` set m1" 
        using keys_set_right[of m "Some k" l] by (metis m1_def set_map)
      then have "(r, bn, vk) \<in> set (map_emplace m1 r (bn, vk))"
        by (simp add: set_map_emplace[OF ord1])
      then have "(r, bn, vk) \<in> set m'" using eq rb in_erase_it[of "(r, bn, vk)" _ bk]
        by (simp add: m'_def)
      then show ?thesis using same ke rb by simp
    qed
  next
    fix ka bn assume rb: "r < bk" and ka: "(ka, r, vk) \<in> set m1"
    from set_right_origin[OF ka[unfolded m1_def]] lr have km: "(ka, r, vk) \<in> set m" by auto
    have kar: "ka < r" using range_inv_nonempty[OF inv km] by simp
    have False
    proof (cases "ka < k")
      case True
      then have "fst (ka, r, vk) < fst (k, bk, vk)" by simp
      from range_inv_disjoint[OF inv km ke this] show False using kl lr by simp
    next
      case False
      moreover have "ka \<noteq> k"
      proof
        assume "ka = k"
        then have "(ka, r, vk) = (k, bk, vk)" using ordered_key_eq[OF ord km ke] by simp
        then show False using rb by simp
      qed
      ultimately have "fst (k, bk, vk) < fst (ka, r, vk)" by simp
      from range_inv_disjoint[OF inv ke km this] show False using kar rb by simp
    qed
    then show ?thesis ..
  qed
qed

lemma erase_loop_frame:
  fixes l :: "'p::linorder" and m :: "('p, 'v) map_type"
  assumes "range_inv m" "l \<le> nl" "l < r" "erase_loop l r nl m = Some m'"
    "(a, b, v) \<in> set m" "r \<le> a"
  shows "(a, b, v) \<in> set m' \<or>
         (\<exists>k. (k, a, v) \<in> set m \<and> k \<le> l \<and> r < a \<and> (r, b, v) \<in> set m')"
  using assms(1,2,4,5)
proof (induction "length m + length (filter (\<lambda>e. l < fst (snd e)) m)" arbitrary: m nl rule: less_induct)
  case less
  note inv = less.prems(1)
  note ord = range_inv_ordered[OF inv]
  note e = less.prems(4)
  note lr = assms(3) and ra = assms(6)
  from erase_loop_step[OF range_inv_loose[OF inv] less.prems(2), of r] show ?case
  proof (elim disjE exE conjE)
    assume "erase_loop l r nl m = Some m"
    then show ?thesis using less.prems(3) e by simp
  next
    fix k bk vk
    assume ke: "(k, bk, vk) \<in> set m" and kr: "k < r" and c: "l \<le> k" "bk \<le> r"
      and eq: "erase_loop l r nl m = erase_loop l r bk (erase_it m (Some k))"
    have "k \<in> fst ` set m" using ke by force
    then have dec: "length (erase_it m (Some k)) +
               length (filter (\<lambda>e. l < fst (snd e)) (erase_it m (Some k)))
            < length m + length (filter (\<lambda>e. l < fst (snd e)) m)"
      using length_erase_it[of k m] count_erase_it[of "\<lambda>e. l < fst (snd e)" m "Some k"]
      by simp
    have lb: "l \<le> bk" using range_inv_nonempty[OF inv ke] c by simp
    have e2: "(a, b, v) \<in> set (erase_it m (Some k))" using in_erase_it[OF e, of k] kr ra by simp
    from less.hyps[OF dec range_inv_erase_it[OF inv] lb _ e2] eq less.prems(3)
    show ?thesis by (auto simp: set_erase_it)
  next
    fix k bk vk
    assume ke: "(k, bk, vk) \<in> set m" and c: "k \<le> l"
      and eq: "erase_loop l r nl m = Some (snd (inject r bk vk (set_right m (Some k) l)))"
    from split_frame[OF inv ke c lr e ra] eq less.prems(3) c show ?thesis by auto
  next
    fix k bk vk
    assume ke: "(k, bk, vk) \<in> set m" and kr: "k < r"
      and eq: "erase_loop l r nl m = Some (erase_it (map_emplace m r (bk, vk)) (Some k))"
    have "(a, b, v) \<in> set (erase_it (map_emplace m r (bk, vk)) (Some k))"
      using in_erase_it[OF in_map_emplace[OF ord e], of k r "(bk, vk)"] kr ra by simp
    then show ?thesis using eq less.prems(3) by simp
  next
    fix k bk vk
    assume ke: "(k, bk, vk) \<in> set m" and kr: "k < r" and c: "k < l" "l < bk"
      and eq: "erase_loop l r nl m = erase_loop l r bk (set_right m (Some k) l)"
    have "length (filter (\<lambda>e. l < fst (snd e)) (set_right m (Some k) l))
          < length (filter (\<lambda>e. l < fst (snd e)) m)"
      using count_set_right_less[OF ke, of "Some k" l] c by simp
    then have dec: "length (set_right m (Some k) l) +
                    length (filter (\<lambda>e. l < fst (snd e)) (set_right m (Some k) l))
                  < length m + length (filter (\<lambda>e. l < fst (snd e)) m)"
      by (simp add: length_set_right)
    have inv2: "range_inv (set_right m (Some k) l)"
      using range_inv_set_right[OF inv ke c(1)] c(2) by simp
    have lb: "l \<le> bk" using c by simp
    have e2: "(a, b, v) \<in> set (set_right m (Some k) l)"
      using in_set_right[OF e, of k l] kr ra by simp
    from less.hyps[OF dec inv2 lb _ e2] eq less.prems(3)
    have "(a, b, v) \<in> set m' \<or>
          (\<exists>k'. (k', a, v) \<in> set (set_right m (Some k) l) \<and> k' \<le> l \<and> r < a \<and> (r, b, v) \<in> set m')"
      by simp
    then show ?thesis
    proof (elim disjE exE conjE)
      fix k' assume k': "(k', a, v) \<in> set (set_right m (Some k) l)" "k' \<le> l" "r < a" "(r, b, v) \<in> set m'"
      from set_right_origin[OF k'(1)] lr ra have "(k', a, v) \<in> set m" by auto
      then show ?thesis using k' by blast
    qed simp
  qed
qed

lemma upper_bound_eqI:
  assumes "ordered m" "e \<in> set m" "x < fst e" "\<forall>e'\<in>set m. x < fst e' \<longrightarrow> fst e \<le> fst e'"
  shows "upper_bound m x = Some (fst e)"
proof (cases "upper_bound m x")
  case None
  then show ?thesis using assms(2,3) by (auto simp: upper_bound_None)
next
  case (Some kn)
  then obtain e' where e': "e' \<in> set m" "fst e' = kn" "x < kn"
    using upper_bound_SomeD[OF Some] by auto
  have "kn \<le> fst e" using upper_bound_least[OF assms(1) Some assms(2,3)] .
  moreover have "fst e \<le> kn" using assms(4) e' by auto
  ultimately show ?thesis using Some by simp
qed

text \<open>The body of \<open>inject\<close> past its two early returns, with its locals named.\<close>

lemma inject_unfold:
  fixes l :: "'p::linorder" and m :: "('p, 'v) map_type"
  assumes "\<not> r \<le> l" "m \<noteq> []"
    and "i0 = lower_bound m l"
    and "i = (if i0 = None \<or> (i0 \<noteq> begin_it m \<and> l \<noteq> left i0) then prev_it m i0 else i0)"
    and "n = next_it m i"
    and "p = (if i \<noteq> begin_it m then prev_it m i else None)"
  shows "inject l r v m =
      (if r \<le> left i \<and> (p = None \<or> right m p \<le> l) then
          (if (p \<noteq> None \<and> l = right m p \<and> v = value_of m p) \<and> (r = left i \<and> v = value_of m i)
             then (True, erase_it (set_right m p (right m i)) i)
           else if (p \<noteq> None \<and> l = right m p \<and> v = value_of m p) then (True, set_right m p r)
           else if (r = left i \<and> v = value_of m i)
             then (True, erase_it (map_emplace m l (right m i, v)) i)
           else (True, map_emplace m l (r, v)))
        else if right m i \<le> l \<and> (n = None \<or> r \<le> left n) then
          (if (l = right m i \<and> v = value_of m i) \<and> (n \<noteq> None \<and> r = left n \<and> v = value_of m n)
             then (True, erase_it (set_right m i (right m n)) n)
           else if (l = right m i \<and> v = value_of m i) then (True, set_right m i r)
           else if (n \<noteq> None \<and> r = left n \<and> v = value_of m n)
             then (True, erase_it (map_emplace m l (right m n, v)) n)
           else (True, map_emplace m l (r, v)))
        else (False, m))"
  using assms(1,2) unfolding inject_def Let_def assms(3-6) emplace_def snd_conv
  by (simp only: if_False)

text \<open>
  The split branch when the node after the split interval starts where that interval
  ends and carries the same value: \<open>inject\<close> takes its right-merge path, so the
  remainder and that node become one node with key \<open>r\<close>.
\<close>
lemma split_fuses:
  fixes l :: "'p::linorder" and m :: "('p, 'v) map_type"
  assumes inv: "range_inv m" and ke: "(k, a, v) \<in> set m" and e: "(a, b, v) \<in> set m"
    and kl: "k \<le> l" and lr: "l < r" and ra: "r < a"
  shows "inject r a v (set_right m (Some k) l) =
           (True, erase_it (map_emplace (set_right m (Some k) l) r (b, v)) (Some a))"
proof -
  define m1 where "m1 = set_right m (Some k) l"
  note ord = range_inv_ordered[OF inv]
  have ord1: "ordered m1" using ord by (simp add: m1_def ordered_set_right)
  have ka: "k < a" using kl lr ra by simp
  have keys: "fst ` set m1 = fst ` set m"
    using keys_set_right[of m "Some k" l] by (metis m1_def set_map)
  have k1: "(k, l, v) \<in> set m1" using ke by (force simp: m1_def set_set_right)
  have e1: "(a, b, v) \<in> set m1" using in_set_right[OF e, of k l] ka by (simp add: m1_def)
  have ne1: "m1 \<noteq> []" using k1 by auto
  have between: "\<And>x. x \<in> set m1 \<Longrightarrow> k < fst x \<Longrightarrow> a \<le> fst x"
  proof -
    fix x assume x: "x \<in> set m1" "k < fst x"
    then obtain y where y: "y \<in> set m" "fst y = fst x" using keys by (metis imageE imageI)
    then have "fst (k, a, v) < fst y" using x by simp
    from range_inv_disjoint[OF inv ke y(1) this] show "a \<le> fst x" using y by simp
  qed
  define i0 where "i0 = lower_bound m1 r"
  define i where "i = (if i0 = None \<or> (i0 \<noteq> begin_it m1 \<and> r \<noteq> left i0) then prev_it m1 i0 else i0)"
  define n where "n = next_it m1 i"
  define p where "p = (if i \<noteq> begin_it m1 then prev_it m1 i else None)"
  from inject_position[OF ord1 ne1, of r] obtain k0 where
    k0: "i = Some k0" "k0 \<in> fst ` set m1"
       "(k0 \<le> r \<and> (\<forall>e\<in>set m1. fst e \<le> r \<longrightarrow> fst e \<le> k0)) \<or>
        (r < k0 \<and> i = begin_it m1 \<and> (\<forall>e\<in>set m1. k0 \<le> fst e))"
    unfolding i_def i0_def by blast
  have "k0 = k"
  proof -
    from k0(3) have c: "k0 \<le> r" "k \<le> k0"
      using k1 kl lr by force+
    obtain x where x: "x \<in> set m1" "fst x = k0" using k0(2) by auto
    show ?thesis
    proof (rule ccontr)
      assume "k0 \<noteq> k"
      then have "k < fst x" using c x by simp
      from between[OF x(1) this] show False using c x ra by simp
    qed
  qed
  then have ik: "i = Some k" using k0(1) by simp
  have "upper_bound m1 k = Some (fst (a, b, v))"
    using upper_bound_eqI[OF ord1 e1, of k] ka between by auto
  then have nk: "n = Some a" using ik by (simp add: n_def next_it_def)
  have ri: "right m1 i = l" using right_entry[OF ord1 k1] ik by simp
  have rn: "right m1 n = b" using right_entry[OF ord1 e1] nk by simp
  have vn: "value_of m1 n = v" using value_entry[OF ord1 e1] nk by simp
  have nle: "\<not> a \<le> r" using ra by simp
  note sel = if_True if_False simp_thms
  have fl: "\<not> (a \<le> left i \<and> (p = None \<or> right m1 p \<le> r))"
    using ik ka by (auto simp: left_def)
  have fr: "right m1 i \<le> r \<and> (n = None \<or> a \<le> left n)"
    using ri lr nk by (simp add: left_def)
  have lm: "\<not> (r = right m1 i \<and> v = value_of m1 i)" using ri lr by auto
  have rm: "n \<noteq> None \<and> a = left n \<and> v = value_of m1 n" using nk vn by (simp add: left_def)
  have "inject r a v m1 = (True, erase_it (map_emplace m1 r (right m1 n, v)) n)"
    unfolding inject_unfold[OF nle ne1 i0_def i_def n_def p_def]
    by (simp only: fl eqTrueI[OF fr] lm eqTrueI[OF rm] sel)
  then show ?thesis using rn nk by (simp add: m1_def)
qed

text \<open>
  The first pass of the loop when a stored interval \<open>[k, a)\<close> covers \<open>[l, r)\<close> and
  reaches beyond \<open>r\<close>: it is the split branch.
\<close>

lemma erase_loop_split:
  fixes l :: "'p::linorder" and m :: "('p, 'v) map_type"
  assumes inv: "range_inv m" and ke: "(k, a, v) \<in> set m"
    and kl: "k \<le> l" and lr: "l < r" and ra: "r < a"
  shows "erase_loop l r l m = Some (snd (inject r a v (set_right m (Some k) l)))"
proof -
  note ord = range_inv_ordered[OF inv]
  define it where "it = (if locate m l (lower_bound m l) = None then lower_bound m l
                         else locate m l (lower_bound m l))"
  have "locate m l (lower_bound m l) = Some k"
    using located_iff[OF inv, of l k] ke kl lr ra by auto
  then have it: "it = Some k" by (simp add: it_def)
  have lk: "left it = k" using it by (simp add: left_def)
  have rk: "right m it = a" "value_of m it = v"
    using right_entry[OF ord ke] value_entry[OF ord ke] it by auto
  note sel = if_True if_False simp_thms
  have step: "erase_loop l r l m =
     (if it = None \<or> r \<le> left it then Some m
      else if l \<le> left it \<and> right m it \<le> r
        then erase_loop l r (right m it) (erase_it m it)
      else if left it \<le> l \<and> r \<le> right m it
        then Some (snd (inject r (right m it) (value_of m it) (set_right m it l)))
      else if l \<le> left it \<and> left it < r
        then Some (erase_it (map_emplace m r (right m it, value_of m it)) it)
      else if l < right m it \<and> right m it \<le> r
        then erase_loop l r (right m it) (set_right m it l)
      else erase_loop l r (right m it) m)"
    by (subst erase_loop.simps) (simp only: Let_def it_def)
  have stop: "\<not> (it = None \<or> r \<le> left it)" using it lk kl lr by auto
  have c1: "\<not> (l \<le> left it \<and> right m it \<le> r)" using rk ra by auto
  have c2: "left it \<le> l \<and> r \<le> right m it" using lk rk kl ra by auto
  have "erase_loop l r l m =
          Some (snd (inject r (right m it) (value_of m it) (set_right m it l)))"
    unfolding step by (simp only: stop c1 eqTrueI[OF c2] sel)
  then show ?thesis using rk it by simp
qed

section \<open>Concrete runs\<close>

text \<open>
  Claim C6. From the empty map, \<open>inject(0, 10, "A")\<close> then \<open>inject(10, 20, "A")\<close>
  leaves the single interval \<open>[0, 20) -> "A"\<close>; with \<open>"B"\<close> as the second value the
  map holds the two intervals \<open>[0, 10) -> "A"\<close> and \<open>[10, 20) -> "B"\<close>.
\<close>

theorem inject_merge_example:
  "inject (10::int) 20 ''A'' (snd (inject 0 10 ''A'' [])) = (True, [(0, 20, ''A'')]) \<and>
   inject (10::int) 20 ''B'' (snd (inject 0 10 ''A'' [])) =
     (True, [(0, 10, ''A''), (10, 20, ''B'')])"
  by (simp add: eval_defs)

lemma reach_one: "reachable [(0::int, 10, ''A'')]"
  using reach_insert[OF reach_empty, of "0::int" 10 "''A''"] by (simp add: eval_defs)

lemma erase_0_5: "erase_range (0::int) 5 [(0, 10, ''A'')] = Some [(0, 0, ''A''), (5, 10, ''A'')]"
  by (simp add: eval_defs erase_loop.simps)

lemma erase_0_5_again:
  "erase_range (0::int) 5 [(0, 0, ''A''), (5, 10, ''A'')] = Some [(5, 10, ''A'')]"
  by (simp add: eval_defs erase_loop.simps)

text \<open>
  Claim C1 says every reachable state stores only intervals with left below right. The
  run \<open>insert(0, 10, "A")\<close>, \<open>erase(0, 5)\<close> ends in a state that stores \<open>[0, 0)\<close>:
  the branch for "the stored interval covers the erased range" also takes the intervals
  that start exactly at \<open>l\<close>, and shrinks them to \<open>[l, l)\<close>.
\<close>

theorem erase_range_leaves_empty_interval:
  "reachable [(0::int, 0, ''A''), (5, 10, ''A'')] \<and>
   (\<exists>x\<in>set [(0::int, 0::int, ''A''), (5, 10, ''A'')]. \<not> fst x < fst (snd x))"
  using reach_erase_range[OF reach_one erase_0_5] by simp

text \<open>
  Claim C2 says no point of \<open>[l, r)\<close> is mapped after \<open>erase(l, r)\<close>. After
  \<open>erase(0, 5)\<close> on \<open>[0, 10) -> "A"\<close>, the leftover node at key \<open>0\<close> makes
  \<open>lookup(0)\<close> answer \<open>"A"\<close>.
\<close>

theorem erase_range_point_still_mapped:
  "reachable [(0::int, 10, ''A'')] \<and>
   erase_range (0::int) 5 [(0, 10, ''A'')] = Some [(0, 0, ''A''), (5, 10, ''A'')] \<and>
   lookup [(0::int, 0, ''A''), (5, 10, ''A'')] 0 = Some ''A''"
  using reach_one erase_0_5 by (simp add: eval_defs)

text \<open>
  Claim C3 says a second \<open>erase(l, r)\<close> changes nothing. On \<open>[0, 10) -> "A"\<close> the
  first \<open>erase(0, 5)\<close> leaves the node \<open>[0, 0)\<close> behind and the second one deletes
  it, so the two states differ.
\<close>

theorem erase_range_twice_differs:
  "reachable [(0::int, 10, ''A'')] \<and>
   erase_range (0::int) 5 [(0, 10, ''A'')] = Some [(0, 0, ''A''), (5, 10, ''A'')] \<and>
   erase_range (0::int) 5 [(0, 0, ''A''), (5, 10, ''A'')] = Some [(5, 10, ''A'')] \<and>
   [(5, 10, ''A'')] \<noteq> [(0::int, 0, ''A''), (5, 10, ''A'')]"
  using reach_one erase_0_5 erase_0_5_again by simp

text \<open>
  Claim C8. \<open>erase(l, r)\<close> returns on every state the public operations can produce
  from the empty map, for every \<open>l\<close> and \<open>r\<close>: the scan leaves its loop after finitely
  many passes.
\<close>

theorem erase_range_terminates:
  "reachable m \<Longrightarrow> \<exists>m'. erase_range l r m = Some m'"
  using erase_range_total[OF reachable_loose_inv, of m l r] by blast

theorem erase_range_terminates_witness:
  "reachable [(0::int, 10, ''A'')] \<and> (\<exists>m'. erase_range 0 5 [(0::int, 10, ''A'')] = Some m')"
  using reach_one erase_range_terminates[OF reach_one, of 0 5] by simp

lemma reach_two: "reachable [(0::int, 10, ''A''), (10, 20, ''A'')]"
  using reach_insert[OF reach_one, of 10 20 "''A''"] by (simp add: eval_defs)

lemma erase_3_5:
  "erase_range (3::int) 5 [(0, 10, ''A''), (10, 20, ''A'')] = Some [(0, 3, ''A''), (5, 20, ''A'')]"
  by (simp add: eval_defs erase_loop.simps)

text \<open>
  Claim C7 says every stored entry that starts at or after \<open>r\<close> is still stored,
  unchanged, after \<open>erase(l, r)\<close>. On \<open>[0, 10) -> "A"\<close>, \<open>[10, 20) -> "A"\<close> the call
  \<open>erase(3, 5)\<close> splits the first interval and re-injects \<open>[5, 10) -> "A"\<close>, which
  absorbs the second: the entry \<open>[10, 20)\<close> is gone and \<open>[5, 20)\<close> is stored.
\<close>

theorem erase_range_absorbs_neighbour:
  "reachable [(0::int, 10, ''A''), (10, 20, ''A'')] \<and>
   erase_range (3::int) 5 [(0, 10, ''A''), (10, 20, ''A'')] =
     Some [(0, 3, ''A''), (5, 20, ''A'')] \<and>
   (10, 20, ''A'') \<in> set [(0::int, 10::int, ''A''), (10, 20, ''A'')] \<and> (5::int) \<le> 10 \<and>
   (10, 20, ''A'') \<notin> set [(0::int, 3::int, ''A''), (5, 20, ''A'')]"
  using reach_two erase_3_5 by simp

lemma erase_3_5_other:
  "erase_range (3::int) 5 [(0, 10, ''A''), (10, 20, ''B'')] =
     Some [(0, 3, ''A''), (5, 10, ''A''), (10, 20, ''B'')]"
  by (simp add: eval_defs erase_loop.simps)

text \<open>
  Claim C7, amended. On a map that satisfies the invariant, take a stored entry
  \<open>[a, b) -> v\<close> with \<open>r \<le> a\<close>. When \<open>l < r\<close> and the map stores an interval
  \<open>[k, a) -> v\<close> with \<open>k \<le> l\<close> and \<open>r < a\<close> (the interval that \<open>erase(l, r)\<close>
  splits ends where the entry starts and carries the same value), the right remainder
  is fused with the entry: after the call \<open>[a, b) -> v\<close> is no longer stored,
  \<open>[r, b) -> v\<close> is stored and \<open>[r, a) -> v\<close> is not. In every other case the entry
  is still stored, unchanged.
\<close>

theorem erase_range_frame:
  fixes l :: "'p::linorder" and m :: "('p, 'v) map_type"
  assumes "range_inv m" "erase_range l r m = Some m'" "(a, b, v) \<in> set m" "r \<le> a"
  shows "if l < r \<and> (\<exists>k. (k, a, v) \<in> set m \<and> k \<le> l \<and> r < a)
         then (a, b, v) \<notin> set m' \<and> (r, b, v) \<in> set m' \<and> (r, a, v) \<notin> set m'
         else (a, b, v) \<in> set m'"
proof (cases "l < r \<and> (\<exists>k. (k, a, v) \<in> set m \<and> k \<le> l \<and> r < a)")
  case True
  then obtain k where k: "(k, a, v) \<in> set m" "k \<le> l" "r < a" and lr: "l < r" by blast
  note inv = assms(1)
  note ord = range_inv_ordered[OF inv]
  define m1 where "m1 = set_right m (Some k) l"
  have ord1: "ordered m1" using ord by (simp add: m1_def ordered_set_right)
  have "\<not> r \<le> l" using lr by auto
  then have "erase_loop l r l m = Some m'" using assms(2) by (simp add: erase_range_def)
  then have m': "m' = erase_it (map_emplace m1 r (b, v)) (Some a)"
    using erase_loop_split[OF inv k(1,2) lr k(3)] split_fuses[OF inv k(1) assms(3) k(2) lr k(3)]
    by (simp add: m1_def)
  have "r \<notin> fst ` set m"
  proof
    assume "r \<in> fst ` set m"
    then obtain e' where e': "e' \<in> set m" "fst e' = r" by auto
    then have "fst (k, a, v) < fst e'" using k(2) lr by simp
    from range_inv_disjoint[OF inv k(1) e'(1) this] show False using e'(2) k(3) by simp
  qed
  then have free: "r \<notin> fst ` set m1"
    using keys_set_right[of m "Some k" l] by (metis m1_def set_map)
  then have emp: "set (map_emplace m1 r (b, v)) = insert (r, b, v) (set m1)"
    by (simp add: set_map_emplace[OF ord1])
  have ab: "a < b" using range_inv_nonempty[OF inv assms(3)] by simp
  have 1: "(a, b, v) \<notin> set m'" by (simp add: m' set_erase_it)
  have 2: "(r, b, v) \<in> set m'" using emp k(3) by (simp add: m' set_erase_it)
  have 3: "(r, a, v) \<notin> set m'"
  proof
    assume "(r, a, v) \<in> set m'"
    then have "(r, a, v) \<in> insert (r, b, v) (set m1)" using emp by (simp add: m' set_erase_it)
    then show False using ab free by force
  qed
  show ?thesis using True 1 2 3 by simp
next
  case False
  have "(a, b, v) \<in> set m'"
  proof (cases "r \<le> l")
    case True
    then show ?thesis using assms by (simp add: erase_range_def)
  next
    case nle: False
    then have "l < r" "erase_loop l r l m = Some m'"
      using assms(2) by (simp_all add: erase_range_def)
    from erase_loop_frame[OF assms(1) order_refl this assms(3,4)] False \<open>l < r\<close>
    show ?thesis by blast
  qed
  then show ?thesis using False by simp
qed

theorem erase_range_frame_witness:
  "range_inv [(0::int, 10, ''A''), (10, 20, ''A'')] \<and>
   erase_range (3::int) 5 [(0, 10, ''A''), (10, 20, ''A'')] =
     Some [(0, 3, ''A''), (5, 20, ''A'')] \<and>
   (10, 20, ''A'') \<in> set [(0::int, 10::int, ''A''), (10, 20, ''A'')] \<and> (5::int) \<le> 10 \<and>
   (0, 10, ''A'') \<in> set [(0::int, 10::int, ''A''), (10, 20, ''A'')] \<and> (0::int) \<le> 3 \<and>
   (3::int) < 5 \<and> (5::int) < 10 \<and>
   (10, 20, ''A'') \<notin> set [(0::int, 3::int, ''A''), (5, 20, ''A'')] \<and>
   (5, 20, ''A'') \<in> set [(0::int, 3::int, ''A''), (5, 20, ''A'')] \<and>
   (5, 10, ''A'') \<notin> set [(0::int, 3::int, ''A''), (5, 20, ''A'')] \<and>
   range_inv [(0::int, 10, ''A''), (10, 20, ''B'')] \<and>
   erase_range (3::int) 5 [(0, 10, ''A''), (10, 20, ''B'')] =
     Some [(0, 3, ''A''), (5, 10, ''A''), (10, 20, ''B'')] \<and>
   (10, 20, ''B'') \<in> set [(0::int, 3::int, ''A''), (5, 10, ''A''), (10, 20, ''B'')]"
proof -
  have inv: "range_inv [(0::int, 10, ''A''), (10, 20, ''A'')]" by (simp add: range_inv_def)
  have mem: "(10, 20, ''A'') \<in> set [(0::int, 10::int, ''A''), (10, 20, ''A'')]" by simp
  have inv2: "range_inv [(0::int, 10, ''A''), (10, 20, ''B'')]" by (simp add: range_inv_def)
  have mem2: "(10, 20, ''B'') \<in> set [(0::int, 10::int, ''A''), (10, 20, ''B'')]" by simp
  have ge: "(5::int) \<le> 10" by simp
  from erase_range_frame[OF inv erase_3_5 mem ge]
    erase_range_frame[OF inv2 erase_3_5_other mem2 ge]
  show ?thesis using inv inv2 erase_3_5 erase_3_5_other by simp
qed

lemma reach_empty_node: "reachable [(0::int, 0, ''A''), (5, 10, ''A'')]"
  using reach_erase_range[OF reach_one erase_0_5] .

text \<open>
  Claim C9 says \<open>erase(p)\<close> returns \<open>false\<close> and changes nothing when no stored
  interval contains \<open>p\<close>. In the state \<open>[0, 0) -> "A"\<close>, \<open>[5, 10) -> "A"\<close> that
  \<open>insert(0, 10, "A")\<close>, \<open>erase(0, 5)\<close> produce, no stored interval contains \<open>0\<close>, yet
  \<open>erase(0)\<close> returns \<open>true\<close> and removes the node with key \<open>0\<close>: \<open>locate\<close>
  accepts a node whose key equals the point without looking at its right endpoint.
\<close>

theorem erase_point_removes_empty_node:
  "reachable [(0::int, 0, ''A''), (5, 10, ''A'')] \<and>
   \<not> (\<exists>x\<in>set [(0::int, 0::int, ''A''), (5, 10, ''A'')]. fst x \<le> 0 \<and> 0 < fst (snd x)) \<and>
   erase_point 0 [(0::int, 0, ''A''), (5, 10, ''A'')] = (True, [(5, 10, ''A'')])"
  using reach_empty_node by (simp add: eval_defs)

lemma erase_3_5_left_aligned:
  "erase_range (3::int) 5 [(3, 10, ''A'')] = Some [(3, 3, ''A''), (5, 10, ''A'')]"
  by (simp add: eval_defs erase_loop.simps)

lemma reach_empty_node_3: "reachable [(3::int, 3, ''A''), (5, 10, ''A'')]"
proof -
  have "reachable [(3::int, 10, ''A'')]"
    using reach_insert[OF reach_empty, of "3::int" 10 "''A''"] by (simp add: eval_defs)
  from reach_erase_range[OF this erase_3_5_left_aligned] show ?thesis .
qed

text \<open>
  Claim C10 says \<open>find(p)\<close> returns \<open>(0, 0, absent)\<close> when no stored interval contains
  \<open>p\<close>. In the state \<open>[3, 3) -> "A"\<close>, \<open>[5, 10) -> "A"\<close> that \<open>insert(3, 10, "A")\<close>,
  \<open>erase(3, 5)\<close> produce, no stored interval contains \<open>3\<close>, yet \<open>find(3)\<close> returns
  the bounds \<open>(3, 3)\<close> with the value \<open>"A"\<close>.
\<close>

theorem find_reports_empty_node:
  "reachable [(3::int, 3, ''A''), (5, 10, ''A'')] \<and>
   \<not> (\<exists>x\<in>set [(3::int, 3::int, ''A''), (5, 10, ''A'')]. fst x \<le> 3 \<and> 3 < fst (snd x)) \<and>
   find_rm [(3::int, 3, ''A''), (5, 10, ''A'')] 3 = (3, 3, Some ''A'')"
  using reach_empty_node_3 by (simp add: eval_defs)

end
